theory Spec2Isabelle
  imports Main
begin

section \<open>Extractor: the transaction-link pattern of \<open>parseHTMLForHashes\<close>\<close>

text \<open>
  The source scans the page content with the regular expression
  \<^verbatim>\<open>/href="[^"]*\/tx\/(0x[a-fA-F0-9]{64})"/g\<close>.
  The pattern is kept as data (a list of items, in the order of the literal) and is run by a
  backtracking matcher with the priorities of the JavaScript engine: a greedy star first
  tries to consume one more character and gives it back only when the rest of the pattern
  fails. \<open>Mark\<close> records the input position at the parentheses of the capture group.
  Content is a \<open>string\<close>; \<open>length\<close> is the source's \<open>.length\<close>.
\<close>

definition dquote :: char where
  "dquote = CHR 0x22"

datatype item =
    Lit char
  | Cls "char \<Rightarrow> bool"
  | Star "char \<Rightarrow> bool"
  | Mark

fun rx_match :: "item list \<Rightarrow> string \<Rightarrow> (string list \<times> string) option" where
  "rx_match [] s = Some ([], s)"
| "rx_match (Mark # its) s =
     (case rx_match its s of None \<Rightarrow> None | Some (ms, r) \<Rightarrow> Some (s # ms, r))"
| "rx_match (Lit c # its) [] = None"
| "rx_match (Lit c # its) (x # xs) = (if x = c then rx_match its xs else None)"
| "rx_match (Cls P # its) [] = None"
| "rx_match (Cls P # its) (x # xs) = (if P x then rx_match its xs else None)"
| "rx_match (Star P # its) [] = rx_match its []"
| "rx_match (Star P # its) (x # xs) =
     (if P x then
        (case rx_match (Star P # its) xs of
           Some r \<Rightarrow> Some r
         | None \<Rightarrow> rx_match its (x # xs))
      else rx_match its (x # xs))"

definition is_hex :: "char \<Rightarrow> bool" where
  "is_hex c \<longleftrightarrow> c \<in> set ''abcdefABCDEF0123456789''"

definition not_quote :: "char \<Rightarrow> bool" where
  "not_quote c \<longleftrightarrow> c \<noteq> dquote"

definition hashRegex :: "item list" where
  "hashRegex =
     map Lit ''href='' @ [Lit dquote] @ [Star not_quote] @ map Lit ''/tx/'' @
     [Mark] @ map Lit ''0x'' @ replicate 64 (Cls is_hex) @ [Mark] @ [Lit dquote]"

text \<open>
  One attempt of a pattern with one capture group at the head of \<open>s\<close>: the text of
  group 1 (the characters between the two marks) and the input left after the whole match.
\<close>

definition rx_at :: "item list \<Rightarrow> string \<Rightarrow> (string \<times> string) option" where
  "rx_at pat s =
     (case rx_match pat s of
        Some ([s1, s2], r) \<Rightarrow> Some (take (length s1 - length s2) s1, r)
      | _ \<Rightarrow> None)"

text \<open>
  \<open>hashRegex.exec(htmlContent)\<close> with the \<open>g\<close> flag searches from \<open>lastIndex\<close> for the
  leftmost position where the pattern matches and leaves \<open>lastIndex\<close> behind the match.
  \<open>rx_search\<close> is that search for any pattern (\<open>String.match\<close> without the flag is the
  same search from position 0); \<open>regex_exec\<close> takes the content from \<open>lastIndex\<close> on and
  returns the capture with the content behind the match; \<open>None\<close> is the source's \<open>null\<close>.
\<close>

fun rx_search :: "item list \<Rightarrow> string \<Rightarrow> (string \<times> string) option" where
  "rx_search pat [] = rx_at pat []"
| "rx_search pat (c # cs) =
     (case rx_at pat (c # cs) of Some r \<Rightarrow> Some r | None \<Rightarrow> rx_search pat cs)"

definition regex_exec :: "string \<Rightarrow> (string \<times> string) option" where
  "regex_exec rest = rx_search hashRegex rest"

text \<open>A JavaScript \<open>Set\<close> keeps insertion order; \<open>Array.from\<close> lists it in that order.\<close>

definition set_add :: "'a \<Rightarrow> 'a list \<Rightarrow> 'a list" where
  "set_add x xs = (if x \<in> set xs then xs else xs @ [x])"

definition set_delete :: "'a \<Rightarrow> 'a list \<Rightarrow> 'a list" where
  "set_delete x xs = filter (\<lambda>y. y \<noteq> x) xs"

text \<open>
  The \<open>while\<close> loop of \<open>parseHTMLForHashes\<close>: \<open>rest\<close> is the content from \<open>lastIndex\<close>,
  \<open>hashSet\<close> and \<open>matchCount\<close> are the loop's variables. The loop leaves through \<open>break\<close>
  once \<open>matchCount > 10000\<close>. Nothing inside the \<open>try\<close> throws on a string, so the
  \<open>catch\<close> that returns the empty array is never entered.
\<close>

function scan_loop :: "string \<Rightarrow> string list \<Rightarrow> nat \<Rightarrow> string list" where
  "scan_loop rest hashSet matchCount =
     (case regex_exec rest of
        None \<Rightarrow> hashSet
      | Some (h, rest') \<Rightarrow>
          (if matchCount + 1 > 10000 then set_add h hashSet
           else scan_loop rest' (set_add h hashSet) (matchCount + 1)))"
  by pat_completeness auto
termination
  by (relation "measure (\<lambda>(rest, hashSet, matchCount). 10001 - matchCount)") auto

declare scan_loop.simps [simp del]

definition parseHTMLForHashes :: "string \<Rightarrow> nat \<Rightarrow> string list" where
  "parseHTMLForHashes htmlContent page = scan_loop htmlContent [] 0"


section \<open>Configuration, environment and session state\<close>

text \<open>
  The constructor fixes the options; only the ones the scheduler reads are kept
  (\<open>headless\<close>, \<open>offscreen\<close> and \<open>enableProgressLogging\<close> configure the windows and logging).
  Page numbers, counts and milliseconds are natural numbers.
\<close>

record options =
  windowCooldown :: nat
  autoRetryFailed :: bool
  maxRetries :: nat
  pageTimeout :: nat
  batchDelay :: nat

record scrapper =
  maxWindows :: nat
  totalPages :: nat
  opts :: options

definition default_options :: options where
  "default_options =
     \<lparr>windowCooldown = 300, autoRetryFailed = True, maxRetries = 2,
      pageTimeout = 8000, batchDelay = 100\<rparr>"

definition ExternalScrapper :: "nat \<Rightarrow> nat \<Rightarrow> scrapper" where
  "ExternalScrapper maxWindows' totalPages' =
     \<lparr>maxWindows = maxWindows', totalPages = totalPages', opts = default_options\<rparr>"

text \<open>
  The renderer is outside the program. One call of \<open>scrapePage\<close> has the race of the
  navigation rejected (a navigation failure or \<open>Page load timeout\<close>), or, after the wait
  of 800 ms, the race of the script rejected (\<open>JS execution failed\<close> or \<open>HTML extraction
  timeout\<close>), or gets the value of \<open>document.documentElement.outerHTML\<close>, \<open>None\<close> for
  \<open>null\<close> or \<open>undefined\<close>. The message of an error is kept.
  \<open>renderer env page k\<close> is the outcome of the \<open>k\<close>-th fetch of \<open>page\<close> in the session,
  counted from 0.
\<close>

datatype fetch_outcome = LoadThrew string | ScriptThrew string | Rendered "string option"

text \<open>
  What the detection script finds in the document of page 1: the text of the element
  \<open>.page-link.text-nowrap\<close> and the \<open>href\<close> of the last pagination link, each \<open>None\<close> when
  the element is missing; \<open>DetectThrew\<close> when \<open>loadURL\<close> or \<open>executeJavaScript\<close> rejects.
\<close>

datatype detect_outcome = DetectThrew | DetectDom "string option" "string option"

record env =
  renderer :: "nat \<Rightarrow> nat \<Rightarrow> fetch_outcome"
  detection :: detect_outcome
  batchTimeout :: "nat \<Rightarrow> bool"
  unlinkFails :: bool

text \<open>
  \<open>batchTimeout env page\<close>: the 45000 ms timer raced against the task of \<open>page\<close> in its
  wave fires before the task settles. \<open>unlinkFails\<close>: \<open>fs.unlinkSync\<close> throws.

  The trace records, in the order of the model, the page tasks launched, the navigations
  issued and the timers awaited.
\<close>

datatype timer = WindowCooldown | RenderWait | AttemptDelay | WaveDelay

datatype event =
    EvLaunch nat
  | EvLoad nat nat
  | EvSleep timer nat
  | EvUnlink

record state =
  failedPages :: "nat list"
  processedPages :: "nat list"
  allHashesSet :: "string list"
  processedLocal :: "nat list"
  completedCount :: nat
  statusFile :: bool
  trace :: "event list"

text \<open>
  \<open>failedPages\<close> and \<open>processedPages\<close> are the fields of the object, \<open>allHashesSet\<close>,
  \<open>processedLocal\<close> (the local \<open>processedPages\<close>) and \<open>completedCount\<close> the locals of
  \<open>scrappe\<close> that its closures share, \<open>statusFile\<close> whether \<open>.cloudflare-passed\<close> exists.
\<close>

definition new_state :: "bool \<Rightarrow> state" where
  "new_state passed =
     \<lparr>failedPages = [], processedPages = [], allHashesSet = [], processedLocal = [],
      completedCount = 0, statusFile = passed, trace = []\<rparr>"

definition log_event :: "event \<Rightarrow> state \<Rightarrow> state" where
  "log_event e st = st\<lparr>trace := trace st @ [e]\<rparr>"

fun is_load :: "nat \<Rightarrow> event \<Rightarrow> bool" where
  "is_load p (EvLoad w q) = (q = p)"
| "is_load p _ = False"

definition fetch_count :: "nat \<Rightarrow> state \<Rightarrow> nat" where
  "fetch_count p st = length (filter (is_load p) (trace st))"

section \<open>\<open>scrapePage\<close>: one fetch and its classification\<close>

definition clearCloudflareStatus :: "env \<Rightarrow> state \<Rightarrow> state" where
  "clearCloudflareStatus env st =
     (if statusFile st then
        (if unlinkFails env then st
         else log_event EvUnlink (st\<lparr>statusFile := False\<rparr>))
      else st)"

text \<open>\<open>toLowerCase\<close> on the ASCII letters; \<open>str_includes s pat\<close> is \<open>s.includes(pat)\<close>:
  \<open>pat\<close> starts at some position of \<open>s\<close>.\<close>

definition to_lower :: "char \<Rightarrow> char" where
  "to_lower c =
     (case map_of (zip ''ABCDEFGHIJKLMNOPQRSTUVWXYZ'' ''abcdefghijklmnopqrstuvwxyz'') c of
        Some l \<Rightarrow> l
      | None \<Rightarrow> c)"

definition toLowerCase :: "string \<Rightarrow> string" where
  "toLowerCase s = map to_lower s"

fun starts_with :: "string \<Rightarrow> string \<Rightarrow> bool" where
  "starts_with s [] = True"
| "starts_with [] (p # ps) = False"
| "starts_with (c # cs) (p # ps) = (c = p \<and> starts_with cs ps)"

fun str_includes :: "string \<Rightarrow> string \<Rightarrow> bool" where
  "str_includes [] pat = (pat = [])"
| "str_includes (c # cs) pat = (starts_with (c # cs) pat \<or> str_includes cs pat)"

definition failurePatterns :: "string list" where
  "failurePatterns =
     [''Access Denied'', ''captcha'', ''CAPTCHA'', ''blocked'', ''rate limit'',
      ''temporarily unavailable'', ''service unavailable'', ''cloudflare'',
      ''please try again'']"

definition detectedFailure :: "string \<Rightarrow> string option" where
  "detectedFailure htmlContent =
     (let contentLower = toLowerCase htmlContent
      in find (\<lambda>pattern. str_includes contentLower (toLowerCase pattern)) failurePatterns)"

text \<open>
  Page \<open>p\<close> uses window \<open>(p - 1) % maxWindows\<close>. With no window at that index
  (\<open>maxWindows = 0\<close>, or page 0) the source reads \<open>undefined\<close>.
\<close>

definition windowIndex :: "scrapper \<Rightarrow> nat \<Rightarrow> nat option" where
  "windowIndex cfg page =
     (if maxWindows cfg = 0 \<or> page = 0 then None else Some ((page - 1) mod maxWindows cfg))"

text \<open>
  \<open>scrapePage\<close> returns \<open>{ page, htmlContent, uniqueId }\<close>; \<open>uniqueId\<close> is never read and
  the page is the argument, so the result is the \<open>htmlContent\<close> field, \<open>None\<close> for \<open>null\<close>.
  Every error is thrown inside the \<open>try\<close> and ends in the \<open>catch\<close>, which returns \<open>null\<close>
  content: an undefined window (a TypeError before any navigation), an error of the
  renderer, insufficient content (\<open>!htmlContent || htmlContent.length < 500\<close>) and a
  detected failure pattern, which clears the status file only when the pattern found is
  \<open>cloudflare\<close>.
\<close>

definition scrapePage :: "env \<Rightarrow> scrapper \<Rightarrow> nat \<Rightarrow> state \<Rightarrow> string option \<times> state" where
  "scrapePage env cfg page st =
     (case windowIndex cfg page of
        None \<Rightarrow> (None, st)
      | Some w \<Rightarrow>
          (let k = fetch_count page st;
               st1 = log_event (EvLoad w page) st
           in case renderer env page k of
                LoadThrew msg \<Rightarrow> (None, st1)
              | ScriptThrew msg \<Rightarrow> (None, log_event (EvSleep RenderWait 800) st1)
              | Rendered html \<Rightarrow>
                  (let st2 = log_event (EvSleep RenderWait 800) st1
                   in case html of
                        None \<Rightarrow> (None, st2)
                      | Some htmlContent \<Rightarrow>
                          (if htmlContent = [] \<or> length htmlContent < 500 then (None, st2)
                           else
                             (case detectedFailure htmlContent of
                                Some pat \<Rightarrow>
                                  (None, if pat = ''cloudflare''
                                         then clearCloudflareStatus env st2 else st2)
                              | None \<Rightarrow> (Some htmlContent, st2))))))"

section \<open>\<open>scrapePageSafe\<close>: the inline retry loop\<close>

text \<open>
  The \<open>for\<close> loop over \<open>attempt = 1 .. maxRetries\<close>. A result is returned only when its
  content is present and longer than 500; otherwise, when another attempt follows, the
  loop waits \<open>min(500 * attempt, 2000)\<close> ms. The loop's own \<open>catch\<close> is never entered,
  because \<open>scrapePage\<close> catches every error itself. After the last attempt the result is
  \<open>null\<close> content.
\<close>

definition truthy :: "string option \<Rightarrow> bool" where
  "truthy h = (case h of None \<Rightarrow> False | Some c \<Rightarrow> c \<noteq> [])"

definition sufficient :: "string option \<Rightarrow> bool" where
  "sufficient h = (case h of None \<Rightarrow> False | Some c \<Rightarrow> c \<noteq> [] \<and> length c > 500)"

function attempt_loop ::
  "env \<Rightarrow> scrapper \<Rightarrow> nat \<Rightarrow> nat \<Rightarrow> state \<Rightarrow> string option \<times> state" where
  "attempt_loop env cfg page attempt st =
     (if attempt \<le> maxRetries (opts cfg) then
        (case scrapePage env cfg page st of
           (htmlContent, st1) \<Rightarrow>
             if sufficient htmlContent then (htmlContent, st1)
             else attempt_loop env cfg page (attempt + 1)
                    (if attempt < maxRetries (opts cfg)
                     then log_event (EvSleep AttemptDelay (min (500 * attempt) 2000)) st1
                     else st1))
      else (None, st))"
  by pat_completeness auto
termination
  by (relation "measure (\<lambda>(env, cfg, page, attempt, st). maxRetries (opts cfg) + 1 - attempt)")
    auto

declare attempt_loop.simps [simp del]

definition scrapePageSafe :: "env \<Rightarrow> scrapper \<Rightarrow> nat \<Rightarrow> state \<Rightarrow> string option \<times> state" where
  "scrapePageSafe env cfg page st = attempt_loop env cfg page 1 st"

section \<open>Promises\<close>

text \<open>
  A settled promise is fulfilled with a value or rejected with an error. A promise of the
  model is a computation on the session state that ends settled; \<open>then_p\<close> and \<open>catch_p\<close>
  are \<open>.then(f)\<close> and \<open>.catch(f)\<close>, whose handlers may reject in turn.
\<close>

datatype 'a settled = Fulfilled 'a | Rejected string

type_synonym 'a promise = "state \<Rightarrow> 'a settled \<times> state"

definition resolve_p :: "'a \<Rightarrow> 'a promise" where
  "resolve_p v = (\<lambda>st. (Fulfilled v, st))"

definition then_p :: "'a promise \<Rightarrow> ('a \<Rightarrow> 'b promise) \<Rightarrow> 'b promise" where
  "then_p m f = (\<lambda>st. case m st of
                        (Fulfilled v, st') \<Rightarrow> f v st'
                      | (Rejected e, st') \<Rightarrow> (Rejected e, st'))"

definition catch_p :: "'a promise \<Rightarrow> (string \<Rightarrow> 'a promise) \<Rightarrow> 'a promise" where
  "catch_p m f = (\<lambda>st. case m st of
                         (Fulfilled v, st') \<Rightarrow> (Fulfilled v, st')
                       | (Rejected e, st') \<Rightarrow> f e st')"

fun is_rejected :: "'a settled \<Rightarrow> bool" where
  "is_rejected (Rejected e) = True"
| "is_rejected (Fulfilled v) = False"

text \<open>
  \<open>Promise.race([p, timer])\<close> with a timer that only rejects: the timer's rejection when
  it fires first, the settlement of \<open>p\<close> otherwise. The task behind \<open>p\<close> is not cancelled.
\<close>

definition race_timeout :: "bool \<Rightarrow> 'a settled \<Rightarrow> 'a settled" where
  "race_timeout timer_first p = (if timer_first then Rejected ''Batch timeout'' else p)"

section \<open>\<open>processPage\<close>: one page task of the wave phase\<close>

text \<open>
  The chain \<open>previousPromise.then(cooldown, scrapePageSafe).then(result handler).catch(error
  handler)\<close>. The handlers work on the shared state when they run. The fetch stage is a
  parameter of \<open>processPage_chain\<close>, so that the chain can be studied for a stage that
  rejects; \<open>processPage\<close> runs it with \<open>scrapePageSafe\<close>. The value is \<open>(page, hashCount)\<close>.
\<close>

definition cooldown_fetch ::
  "(nat \<Rightarrow> string option promise) \<Rightarrow> scrapper \<Rightarrow> nat \<Rightarrow> string option promise" where
  "cooldown_fetch fetch cfg page =
     (\<lambda>st. fetch page (log_event (EvSleep WindowCooldown (windowCooldown (opts cfg))) st))"

definition on_result :: "nat \<Rightarrow> string option \<Rightarrow> (nat \<times> nat) promise" where
  "on_result page htmlContent =
     (\<lambda>st. case htmlContent of
              Some c \<Rightarrow>
                (if c \<noteq> [] then
                   (let hashes = parseHTMLForHashes c page;
                        st1 = st\<lparr>allHashesSet := fold set_add hashes (allHashesSet st)\<rparr>;
                        st2 = (if page \<notin> set (processedLocal st1)
                               then st1\<lparr>processedLocal := set_add page (processedLocal st1),
                                        processedPages := set_add page (processedPages st1),
                                        completedCount := completedCount st1 + 1\<rparr>
                               else st1)
                    in (Fulfilled (page, length hashes), st2))
                 else (Fulfilled (page, 0), st\<lparr>failedPages := set_add page (failedPages st)\<rparr>))
            | None \<Rightarrow> (Fulfilled (page, 0), st\<lparr>failedPages := set_add page (failedPages st)\<rparr>))"

definition on_error :: "nat \<Rightarrow> string \<Rightarrow> (nat \<times> nat) promise" where
  "on_error page err =
     (\<lambda>st. (Fulfilled (page, 0), st\<lparr>failedPages := set_add page (failedPages st)\<rparr>))"

definition processPage_chain ::
  "(nat \<Rightarrow> string option promise) \<Rightarrow> scrapper \<Rightarrow> nat \<Rightarrow> (nat \<times> nat) promise" where
  "processPage_chain fetch cfg page =
     catch_p
       (then_p (then_p (resolve_p ()) (\<lambda>_. cooldown_fetch fetch cfg page)) (on_result page))
       (on_error page)"

definition safe_fetch :: "env \<Rightarrow> scrapper \<Rightarrow> nat \<Rightarrow> string option promise" where
  "safe_fetch env cfg page =
     (\<lambda>st. case scrapePageSafe env cfg page st of (h, st') \<Rightarrow> (Fulfilled h, st'))"

definition processPage :: "env \<Rightarrow> scrapper \<Rightarrow> nat \<Rightarrow> (nat \<times> nat) promise" where
  "processPage env cfg page =
     (\<lambda>st. processPage_chain (safe_fetch env cfg) cfg page (log_event (EvLaunch page) st))"

section \<open>The wave loop of \<open>scrappe\<close>\<close>

text \<open>
  The adaptive delay: \<open>wave_delay\<close> is the value of the variable \<open>delay\<close> after the two
  comparisons, \<open>wave_wait\<close> the timer that is awaited, which the source starts only
  \<open>if (delay > this.options.batchDelay)\<close>; \<open>None\<close> is no wait.
\<close>

definition wave_delay :: "options \<Rightarrow> nat \<Rightarrow> nat" where
  "wave_delay ops batchErrors =
     (if batchErrors > 5 then 2000
      else if batchErrors > 2 then 800
      else batchDelay ops)"

definition wave_wait :: "options \<Rightarrow> nat \<Rightarrow> nat option" where
  "wave_wait ops batchErrors =
     (let delay = wave_delay ops batchErrors
      in if delay > batchDelay ops then Some delay else None)"

text \<open>
  \<open>launch_batch\<close> is the inner \<open>for\<close> loop: \<open>processPage\<close> for each page of the wave, in
  page order, giving \<open>currentBatch\<close>. The tasks of different windows run interleaved in the
  source and a task that loses the race of its wave goes on in the background; all of them
  have settled when the wave phase ends (\<open>Promise.allSettled\<close> over \<open>activePromises\<close>), and
  their effects on the state (set insertions) do not depend on the order but for the
  insertion order of the sets. The model runs each task to its end when it is launched.
\<close>

fun launch_batch ::
  "env \<Rightarrow> scrapper \<Rightarrow> nat list \<Rightarrow> state \<Rightarrow> (nat \<times> nat) settled list \<times> state" where
  "launch_batch env cfg [] st = ([], st)"
| "launch_batch env cfg (page # pages) st =
     (case processPage env cfg page st of
        (p, st1) \<Rightarrow>
          (case launch_batch env cfg pages st1 of
             (ps, st2) \<Rightarrow> (p # ps, st2)))"

definition settle_batch ::
  "env \<Rightarrow> nat list \<Rightarrow> (nat \<times> nat) settled list \<Rightarrow> (nat \<times> nat) settled list" where
  "settle_batch env pages currentBatch =
     map (\<lambda>(page, p). race_timeout (batchTimeout env page) p) (zip pages currentBatch)"

definition count_rejected :: "'a settled list \<Rightarrow> nat" where
  "count_rejected batchResults = length (filter is_rejected batchResults)"

text \<open>
  The \<open>while (batchStart <= actualTotalPages)\<close> loop. It returns \<open>errorCount\<close> and the
  state. With \<open>maxWindows = 0\<close> the source never advances \<open>batchStart\<close> and the loop does not
  end: the function has no value (\<open>None\<close>) there.
\<close>

partial_function (option) wave_loop ::
  "env \<Rightarrow> scrapper \<Rightarrow> nat \<Rightarrow> nat \<Rightarrow> nat \<Rightarrow> state \<Rightarrow> (nat \<times> state) option" where
  "wave_loop env cfg actualTotalPages batchStart errorCount st =
     (if batchStart \<le> actualTotalPages then
        (let batchEnd = min (batchStart + maxWindows cfg - 1) actualTotalPages;
             pages = [batchStart ..< batchEnd + 1]
         in case launch_batch env cfg pages st of
              (currentBatch, st1) \<Rightarrow>
                (let batchResults = settle_batch env pages currentBatch;
                     batchErrors = count_rejected batchResults;
                     batchStart' = batchEnd + 1;
                     st2 = (if batchStart' \<le> actualTotalPages then
                              (case wave_wait (opts cfg) batchErrors of
                                 Some delay \<Rightarrow> log_event (EvSleep WaveDelay delay) st1
                               | None \<Rightarrow> st1)
                            else st1)
                 in wave_loop env cfg actualTotalPages batchStart' (errorCount + batchErrors) st2))
      else Some (errorCount, st))"

declare wave_loop.simps [code]

section \<open>The Retry Pass\<close>

text \<open>
  \<open>retryFailedPages\<close> maps an async function over \<open>Array.from(this.failedPages)\<close>; each
  call runs \<open>scrapePageSafe\<close> for its page and, when the content is truthy, adds the
  hashes to \<open>allHashesSet\<close> and deletes the page from \<open>failedPages\<close>. There is no cooldown
  and no chaining on the page's window here. The value is \<open>(page, success, hashCount)\<close>.
\<close>

definition retry_page ::
  "env \<Rightarrow> scrapper \<Rightarrow> nat \<Rightarrow> state \<Rightarrow> (nat \<times> bool \<times> nat) \<times> state" where
  "retry_page env cfg page st =
     (case scrapePageSafe env cfg page st of
        (htmlContent, st1) \<Rightarrow>
          (case htmlContent of
             Some c \<Rightarrow>
               (if c \<noteq> [] then
                  (let hashes = parseHTMLForHashes c page
                   in ((page, True, length hashes),
                       st1\<lparr>allHashesSet := fold set_add hashes (allHashesSet st1),
                           failedPages := set_delete page (failedPages st1)\<rparr>))
                else ((page, False, 0), st1))
           | None \<Rightarrow> ((page, False, 0), st1)))"

fun retry_all ::
  "env \<Rightarrow> scrapper \<Rightarrow> nat list \<Rightarrow> state \<Rightarrow> (nat \<times> bool \<times> nat) list \<times> state" where
  "retry_all env cfg [] st = ([], st)"
| "retry_all env cfg (page # pages) st =
     (case retry_page env cfg page st of
        (r, st1) \<Rightarrow>
          (case retry_all env cfg pages st1 of
             (rs, st2) \<Rightarrow> (r # rs, st2)))"

definition retryFailedPages :: "env \<Rightarrow> scrapper \<Rightarrow> state \<Rightarrow> state" where
  "retryFailedPages env cfg st =
     (let failedArray = failedPages st
      in snd (retry_all env cfg failedArray st))"

section \<open>Detection of the total page count\<close>

text \<open>
  The script run in the document of page 1: \<open>/Page \d+ of (\d+)/\<close> on the text of the
  pagination element, else \<open>/p=(\d+)/\<close> on the \<open>href\<close> of the last pagination link, else 1.
  \<open>parseInt\<close> reads the decimal digits of the capture. \<open>detectTotalPages\<close> returns
  \<open>totalPages || 1\<close>, and 1 when anything throws (also for \<open>windows[0]\<close> undefined).
\<close>

definition is_digit :: "char \<Rightarrow> bool" where
  "is_digit c \<longleftrightarrow> c \<in> set ''0123456789''"

definition pageInfoRegex :: "item list" where
  "pageInfoRegex =
     map Lit ''Page '' @ [Cls is_digit, Star is_digit] @ map Lit '' of '' @
     [Mark, Cls is_digit, Star is_digit, Mark]"

definition lastButtonRegex :: "item list" where
  "lastButtonRegex = map Lit ''p='' @ [Mark, Cls is_digit, Star is_digit, Mark]"

definition parseInt :: "string \<Rightarrow> nat" where
  "parseInt ds = foldl (\<lambda>n c. 10 * n + (of_char c - 48)) 0 ds"

definition detect_script :: "string option \<Rightarrow> string option \<Rightarrow> nat" where
  "detect_script pageInfoText lastButtonHref =
     (case (if truthy pageInfoText
            then rx_search pageInfoRegex (case pageInfoText of Some t \<Rightarrow> t | None \<Rightarrow> [])
            else None) of
        Some (g, r) \<Rightarrow> parseInt g
      | None \<Rightarrow>
          (case lastButtonHref of
             Some href \<Rightarrow>
               (case rx_search lastButtonRegex href of
                  Some (g, r) \<Rightarrow> parseInt g
                | None \<Rightarrow> 1)
           | None \<Rightarrow> 1))"

definition detectTotalPages :: "env \<Rightarrow> scrapper \<Rightarrow> nat" where
  "detectTotalPages env cfg =
     (if maxWindows cfg = 0 then 1
      else
        (case detection env of
           DetectThrew \<Rightarrow> 1
         | DetectDom pageInfoText lastButtonHref \<Rightarrow>
             (let totalPages = detect_script pageInfoText lastButtonHref
              in if totalPages = 0 then 1 else totalPages)))"

section \<open>\<open>scrappe\<close>\<close>

text \<open>
  Detection, the clamp, the wave loop, then \<open>uniqueHashes = Array.from(allHashesSet)\<close>,
  then the Retry Pass when \<open>autoRetryFailed\<close> holds and \<open>failedPages\<close> is not empty, then
  \<open>return uniqueHashes\<close>. The result is the returned list with the final state; \<open>None\<close>
  when the wave loop does not end.
\<close>

definition scrappe :: "env \<Rightarrow> scrapper \<Rightarrow> state \<Rightarrow> (string list \<times> state) option" where
  "scrappe env cfg st =
     (let detectedPages = detectTotalPages env cfg;
          actualTotalPages = min detectedPages (totalPages cfg);
          st0 = st\<lparr>allHashesSet := [], processedLocal := [], completedCount := 0\<rparr>
      in case wave_loop env cfg actualTotalPages 1 0 st0 of
           None \<Rightarrow> None
         | Some (errorCount, st1) \<Rightarrow>
             (let uniqueHashes = allHashesSet st1;
                  st2 = (if autoRetryFailed (opts cfg) \<and> failedPages st1 \<noteq> []
                         then retryFailedPages env cfg st1 else st1)
              in Some (uniqueHashes, st2)))"

section \<open>Worker slots: the promise chains of the windows\<close>

text \<open>
  How the page tasks of one window follow each other. \<open>processPage\<close> reads the window's
  entry of \<open>activePromises\<close>, chains the new task to it with \<open>.then\<close> and stores the new
  promise in the entry (\<open>launch\<close>); the first callback of a task, which waits the cooldown
  and calls \<open>scrapePageSafe\<close>, runs once the promise it is chained to has settled
  (\<open>can_start\<close>); the task settles when its chain is through. A task is a record of its
  page, its window, the task it is chained to (\<open>None\<close> for the \<open>Promise.resolve()\<close> the
  entry starts with) and its status. The event loop picks the next callback, so the wave
  phase is a relation: any task that can start may start, any task in flight may settle,
  and \<open>processPage\<close> may be called at any moment. The 45000 ms race of a wave settles the
  raced promise, not the task, and is no step here.

  \<open>retryFailedPages\<close> calls its async function for every page of \<open>failedArray\<close> in one
  \<open>map\<close>; each call runs up to \<open>window.loadURL\<close> of the first attempt before it yields, with
  no entry of \<open>activePromises\<close> read: all its tasks are in flight at once (\<open>retry_launch\<close>).
\<close>

datatype task_status = Queued | InFlight | Settled

record task =
  t_page :: nat
  t_slot :: nat
  t_pred :: "nat option"
  t_status :: task_status

record sched =
  tasks :: "task list"
  activePromises :: "nat \<Rightarrow> nat option"

definition init_sched :: sched where
  "init_sched = \<lparr>tasks = [], activePromises = (\<lambda>windowIndex. None)\<rparr>"

definition launch :: "nat \<Rightarrow> nat \<Rightarrow> sched \<Rightarrow> sched" where
  "launch W page s =
     (let windowIndex = (page - 1) mod W;
          previousPromise = activePromises s windowIndex;
          pagePromise = length (tasks s)
      in \<lparr>tasks = tasks s @ [\<lparr>t_page = page, t_slot = windowIndex,
                                  t_pred = previousPromise, t_status = Queued\<rparr>],
          activePromises = (activePromises s)(windowIndex := Some pagePromise)\<rparr>)"

definition settled_pred :: "sched \<Rightarrow> nat option \<Rightarrow> bool" where
  "settled_pred s p =
     (case p of None \<Rightarrow> True
      | Some j \<Rightarrow> j < length (tasks s) \<and> t_status (tasks s ! j) = Settled)"

definition can_start :: "nat \<Rightarrow> sched \<Rightarrow> bool" where
  "can_start i s \<longleftrightarrow>
     i < length (tasks s) \<and> t_status (tasks s ! i) = Queued \<and>
     settled_pred s (t_pred (tasks s ! i))"

definition set_status :: "nat \<Rightarrow> task_status \<Rightarrow> sched \<Rightarrow> sched" where
  "set_status i st s = s\<lparr>tasks := (tasks s)[i := (tasks s ! i)\<lparr>t_status := st\<rparr>]\<rparr>"

definition can_settle :: "nat \<Rightarrow> sched \<Rightarrow> bool" where
  "can_settle i s \<longleftrightarrow> i < length (tasks s) \<and> t_status (tasks s ! i) = InFlight"

inductive wave_reachable :: "nat \<Rightarrow> sched \<Rightarrow> bool" for W :: nat where
  wr_init: "wave_reachable W init_sched"
| wr_launch: "wave_reachable W s \<Longrightarrow> wave_reachable W (launch W page s)"
| wr_start: "wave_reachable W s \<Longrightarrow> can_start i s \<Longrightarrow> wave_reachable W (set_status i InFlight s)"
| wr_settle: "wave_reachable W s \<Longrightarrow> can_settle i s \<Longrightarrow> wave_reachable W (set_status i Settled s)"

definition retry_launch :: "nat \<Rightarrow> nat list \<Rightarrow> sched \<Rightarrow> sched" where
  "retry_launch W failedArray s =
     s\<lparr>tasks := tasks s @
          map (\<lambda>page. \<lparr>t_page = page, t_slot = (page - 1) mod W,
                        t_pred = None, t_status = InFlight\<rparr>) failedArray\<rparr>"

definition in_flight_on :: "sched \<Rightarrow> nat \<Rightarrow> nat list" where
  "in_flight_on s slot =
     map t_page (filter (\<lambda>t. t_slot t = slot \<and> t_status t = InFlight) (tasks s))"

text \<open>
  The invariant of the wave phase: a task is chained to the latest earlier task of its
  window; the entry of a window names the latest task of the window; and when a task has
  started, every earlier task of its window has settled. \<open>exclusive\<close>: no two tasks of one
  window are in flight together; \<open>in_flight_on\<close> lists the pages in flight on a window.
\<close>

definition chained :: "sched \<Rightarrow> bool" where
  "chained s \<longleftrightarrow>
     (\<forall>i < length (tasks s). \<forall>j. t_pred (tasks s ! i) = Some j \<longrightarrow>
        j < i \<and> t_slot (tasks s ! j) = t_slot (tasks s ! i) \<and>
        (\<forall>k. j < k \<and> k < i \<longrightarrow> t_slot (tasks s ! k) \<noteq> t_slot (tasks s ! i)))"

definition unchained_first :: "sched \<Rightarrow> bool" where
  "unchained_first s \<longleftrightarrow>
     (\<forall>i < length (tasks s). t_pred (tasks s ! i) = None \<longrightarrow>
        (\<forall>k < i. t_slot (tasks s ! k) \<noteq> t_slot (tasks s ! i)))"

definition active_last :: "sched \<Rightarrow> bool" where
  "active_last s \<longleftrightarrow>
     (\<forall>sl j. activePromises s sl = Some j \<longrightarrow>
        j < length (tasks s) \<and> t_slot (tasks s ! j) = sl \<and>
        (\<forall>k. j < k \<and> k < length (tasks s) \<longrightarrow> t_slot (tasks s ! k) \<noteq> sl))"

definition active_none :: "sched \<Rightarrow> bool" where
  "active_none s \<longleftrightarrow>
     (\<forall>sl. activePromises s sl = None \<longrightarrow>
        (\<forall>k < length (tasks s). t_slot (tasks s ! k) \<noteq> sl))"

definition started_after_settled :: "sched \<Rightarrow> bool" where
  "started_after_settled s \<longleftrightarrow>
     (\<forall>j < length (tasks s). t_status (tasks s ! j) \<noteq> Queued \<longrightarrow>
        (\<forall>i < j. t_slot (tasks s ! i) = t_slot (tasks s ! j) \<longrightarrow>
           t_status (tasks s ! i) = Settled))"

definition slot_inv :: "sched \<Rightarrow> bool" where
  "slot_inv s \<longleftrightarrow>
     chained s \<and> unchained_first s \<and> active_last s \<and> active_none s \<and>
     started_after_settled s"

definition exclusive :: "sched \<Rightarrow> bool" where
  "exclusive s \<longleftrightarrow>
     (\<forall>i j. i < j \<and> j < length (tasks s) \<and>
        t_slot (tasks s ! i) = t_slot (tasks s ! j) \<and>
        t_status (tasks s ! i) = InFlight \<longrightarrow> t_status (tasks s ! j) \<noteq> InFlight)"

section \<open>Vocabulary of the properties\<close>

text \<open>
  The events one call of \<open>scrapePageSafe\<close> for a page can add to the trace: navigations
  of that page, the render wait, the delay between attempts and the removal of the status
  file. A task launch, a window cooldown and a wave delay are not among them.
\<close>

fun fetch_event :: "nat \<Rightarrow> event \<Rightarrow> bool" where
  "fetch_event p (EvLoad w q) = (q = p)"
| "fetch_event p (EvSleep t d) = (t = RenderWait \<or> t = AttemptDelay)"
| "fetch_event p EvUnlink = True"
| "fetch_event p (EvLaunch q) = False"

definition loads :: "nat \<Rightarrow> event list \<Rightarrow> nat" where
  "loads p evs = length (filter (is_load p) evs)"

text \<open>
  Outcomes of a fetch: \<open>attempt_fails\<close> are those that \<open>scrapePageSafe\<close> does not accept,
  \<open>short_content\<close> is content absent or shorter than 500.
\<close>

fun attempt_fails :: "fetch_outcome \<Rightarrow> bool" where
  "attempt_fails (LoadThrew msg) = True"
| "attempt_fails (ScriptThrew msg) = True"
| "attempt_fails (Rendered None) = True"
| "attempt_fails (Rendered (Some c)) = (length c \<le> 500 \<or> detectedFailure c \<noteq> None)"

fun short_content :: "fetch_outcome \<Rightarrow> bool" where
  "short_content (LoadThrew msg) = False"
| "short_content (ScriptThrew msg) = False"
| "short_content (Rendered None) = True"
| "short_content (Rendered (Some c)) = (length c < 500)"

text \<open>The pages for which \<open>processPage\<close> was called, in the order of the calls.\<close>

fun launches :: "event list \<Rightarrow> nat list" where
  "launches [] = []"
| "launches (EvLaunch p # evs) = p # launches evs"
| "launches (e # evs) = launches evs"

text \<open>
  The identifiers and their link context, in the words of the specification: an identifier
  is \<open>0x\<close> followed by 64 hexadecimal digits; it occurs in transaction-link context when
  the content holds \<open>href="\<close>, then characters other than the double quote, then \<open>/tx/\<close>,
  the identifier and the closing double quote. \<open>link_matches\<close> lists, position by
  position, the captures of the pattern wherever it matches; its length is the number of
  link occurrences of the content. \<open>link_tail\<close> is the part of \<open>hashRegex\<close> behind the star.
\<close>

definition is_hash :: "string \<Rightarrow> bool" where
  "is_hash h \<longleftrightarrow> length h = 66 \<and> take 2 h = ''0x'' \<and> list_all is_hex (drop 2 h)"

definition tx_link_occurs :: "string \<Rightarrow> string \<Rightarrow> bool" where
  "tx_link_occurs content h \<longleftrightarrow>
     is_hash h \<and>
     (\<exists>pre q post. content = pre @ ''href='' @ [dquote] @ q @ ''/tx/'' @ h @ [dquote] @ post \<and>
        dquote \<notin> set q)"

fun link_matches :: "string \<Rightarrow> string list" where
  "link_matches [] = []"
| "link_matches (c # cs) =
     (case rx_at hashRegex (c # cs) of
        Some (h, r) \<Rightarrow> h # link_matches cs
      | None \<Rightarrow> link_matches cs)"

definition link_tail :: "item list" where
  "link_tail = map Lit ''/tx/'' @ [Mark] @ map Lit ''0x'' @ replicate 64 (Cls is_hex) @ [Mark] @ [Lit dquote]"

text \<open>A fetch that rendered content of a given length.\<close>

fun content_of_length :: "nat \<Rightarrow> fetch_outcome \<Rightarrow> bool" where
  "content_of_length n (Rendered (Some c)) = (length c = n)"
| "content_of_length n (Rendered None) = False"
| "content_of_length n (LoadThrew msg) = False"
| "content_of_length n (ScriptThrew msg) = False"

text \<open>
  The pacing of a session, in the words of the specification. The wave events of a trace
  are the task launches and the waits between waves, in their order. The pages are
  launched in waves of \<open>w\<close>: wave \<open>k\<close> (from 0) holds the pages \<open>k * w + 1\<close> to
  \<open>k * w + w\<close>, cut at the last page \<open>N\<close>, and there are \<open>N / w\<close> waves, rounded up. The
  errors of a wave are its pages whose 45000 ms timer fired. \<open>wave_pause\<close> is the wait
  that follows a wave with \<open>n\<close> errors: 2000 ms for more than 5 errors, 800 ms for 3 to 5,
  none for 2 or fewer. \<open>wave_schedule\<close> is the session wave by wave: the launches of the
  wave, then, when another wave follows, the pause for the errors of this wave.
\<close>

fun is_wave_event :: "event \<Rightarrow> bool" where
  "is_wave_event (EvLaunch p) = True"
| "is_wave_event (EvSleep t d) = (t = WaveDelay)"
| "is_wave_event (EvLoad w p) = False"
| "is_wave_event EvUnlink = False"

definition wave_events :: "event list \<Rightarrow> event list" where
  "wave_events evs = filter is_wave_event evs"

definition wave_count :: "nat \<Rightarrow> nat \<Rightarrow> nat" where
  "wave_count w N = (N + w - 1) div w"

definition wave_pages :: "nat \<Rightarrow> nat \<Rightarrow> nat \<Rightarrow> nat list" where
  "wave_pages w N k = [k * w + 1 ..< Suc (min (k * w + w) N)]"

definition wave_errors :: "env \<Rightarrow> nat list \<Rightarrow> nat" where
  "wave_errors env pages = length (filter (batchTimeout env) pages)"

definition wave_pause :: "nat \<Rightarrow> event list" where
  "wave_pause n =
     (if 5 < n then [EvSleep WaveDelay 2000]
      else if 2 < n then [EvSleep WaveDelay 800]
      else [])"

definition wave_block :: "env \<Rightarrow> nat \<Rightarrow> nat \<Rightarrow> nat \<Rightarrow> event list" where
  "wave_block env w N k =
     map EvLaunch (wave_pages w N k) @
     (if k + 1 < wave_count w N then wave_pause (wave_errors env (wave_pages w N k)) else [])"

definition wave_schedule :: "env \<Rightarrow> nat \<Rightarrow> nat \<Rightarrow> event list" where
  "wave_schedule env w N = concat (map (wave_block env w N) [0 ..< wave_count w N])"

section \<open>Example sessions\<close>

text \<open>
  A renderer that returns five characters for every fetch, with a first page that has no
  pagination element, and one that always throws after a detection that read
  \<open>Page 1 of 37\<close>.
\<close>

definition env_short :: env where
  "env_short =
     \<lparr>renderer = (\<lambda>page k. Rendered (Some ''<html'')),
      detection = DetectDom None None,
      batchTimeout = (\<lambda>page. False), unlinkFails = False\<rparr>"

definition env_down :: env where
  "env_down =
     \<lparr>renderer = (\<lambda>page k. LoadThrew ''Page load timeout''),
      detection = DetectDom (Some ''Page 1 of 37'') None,
      batchTimeout = (\<lambda>page. page = 2), unlinkFails = False\<rparr>"


text \<open>
  Pages: a transaction link as the site renders it, the two identifiers of scenario A, the
  content of scenario A (the first link twice, the second once) and a page with 10002
  links, the last one to a second identifier.
\<close>

definition tx_link :: "string \<Rightarrow> string" where
  "tx_link h =
     ''<a '' @ (''href='' @ [dquote] @ ''/tx/'' @ h @ [dquote]) @ ''>tx</a>''"

definition hash_a :: string where
  "hash_a = ''0x'' @ replicate 64 (CHR ''A'')"

definition hash_b :: string where
  "hash_b = ''0x'' @ replicate 64 (CHR ''B'')"

definition scenario_a :: string where
  "scenario_a = tx_link hash_a @ tx_link hash_a @ tx_link hash_b"

definition overflow_page :: string where
  "overflow_page = concat (replicate 10001 (tx_link hash_a)) @ tx_link hash_b"

text \<open>
  A page of more than 500 characters with one transaction link, a page of exactly 500
  characters with one transaction link, and a page of more than 500 characters that
  carries two block signatures, \<open>captcha\<close> and \<open>cloudflare\<close>.
\<close>

definition page_one_link :: string where
  "page_one_link = tx_link hash_a @ replicate 500 (CHR '' '')"

definition page_500 :: string where
  "page_500 = tx_link hash_a @ replicate 413 (CHR '' '')"

definition page_challenge :: string where
  "page_challenge = ''captcha cloudflare'' @ replicate 500 (CHR '' '')"

text \<open>
  A session in which every page fails its two inline attempts and is rendered with one
  transaction link from the third fetch on; a renderer that always returns the page of
  500 characters; one that always returns the page with the two signatures.
\<close>

definition env_recover :: env where
  "env_recover =
     \<lparr>renderer = (\<lambda>page k. if k < 2 then LoadThrew ''Page load timeout''
                            else Rendered (Some page_one_link)),
      detection = DetectDom None None,
      batchTimeout = (\<lambda>page. False), unlinkFails = False\<rparr>"

definition env_500 :: env where
  "env_500 =
     \<lparr>renderer = (\<lambda>page k. Rendered (Some page_500)),
      detection = DetectDom None None,
      batchTimeout = (\<lambda>page. False), unlinkFails = False\<rparr>"

definition env_challenge :: env where
  "env_challenge =
     \<lparr>renderer = (\<lambda>page k. Rendered (Some page_challenge)),
      detection = DetectDom None None,
      batchTimeout = (\<lambda>page. False), unlinkFails = False\<rparr>"

text \<open>
  The scheduler after two waves over pages 1 to 3 with two windows, every task run to
  its end: pages 1 and 3 were on window 0, page 2 on window 1.
\<close>

definition run_task :: "nat \<Rightarrow> sched \<Rightarrow> sched" where
  "run_task i s = set_status i Settled (set_status i InFlight s)"

definition after_waves :: sched where
  "after_waves =
     run_task 2 (launch 2 3 (run_task 1 (run_task 0 (launch 2 2 (launch 2 1 init_sched)))))"

text \<open>
  A renderer that never answers: every navigation times out and the 45000 ms timer of
  every task of a wave fires before the task settles.
\<close>

definition env_stalled :: env where
  "env_stalled =
     \<lparr>renderer = (\<lambda>page k. LoadThrew ''Page load timeout''),
      detection = DetectThrew,
      batchTimeout = (\<lambda>page. True), unlinkFails = False\<rparr>"

section \<open>Theorems\<close>

subsection \<open>Lemmas on the fetch functions\<close>

lemma loads_simps [simp]:
  "loads p [] = 0"
  "loads p (evs @ evs') = loads p evs + loads p evs'"
  "loads p (EvLoad w q # evs) = (if q = p then 1 else 0) + loads p evs"
  "loads p (EvSleep t d # evs) = loads p evs"
  "loads p (EvUnlink # evs) = loads p evs"
  "loads p (EvLaunch q # evs) = loads p evs"
  by (simp_all add: loads_def)

lemma fetch_count_loads: "fetch_count p st = loads p (trace st)"
  by (simp add: fetch_count_def loads_def)

lemma log_event_simps [simp]:
  "trace (log_event e st) = trace st @ [e]"
  "failedPages (log_event e st) = failedPages st"
  "processedPages (log_event e st) = processedPages st"
  "allHashesSet (log_event e st) = allHashesSet st"
  "processedLocal (log_event e st) = processedLocal st"
  "completedCount (log_event e st) = completedCount st"
  "statusFile (log_event e st) = statusFile st"
  by (simp_all add: log_event_def)

lemma clearCloudflareStatus_frame [simp]:
  "failedPages (clearCloudflareStatus env st) = failedPages st"
  "processedPages (clearCloudflareStatus env st) = processedPages st"
  "allHashesSet (clearCloudflareStatus env st) = allHashesSet st"
  "processedLocal (clearCloudflareStatus env st) = processedLocal st"
  "completedCount (clearCloudflareStatus env st) = completedCount st"
  by (simp_all add: clearCloudflareStatus_def)

lemma clearCloudflareStatus_trace:
  "\<exists>evs. trace (clearCloudflareStatus env st) = trace st @ evs \<and> set evs \<subseteq> {EvUnlink}"
  by (simp add: clearCloudflareStatus_def)

text \<open>What one call of scrapePage leaves in the state.\<close>

lemma scrapePage_frame:
  assumes "scrapePage env cfg page st = (h, st')"
  shows "failedPages st' = failedPages st \<and> processedPages st' = processedPages st \<and>
         allHashesSet st' = allHashesSet st \<and> processedLocal st' = processedLocal st \<and>
         completedCount st' = completedCount st"
  using assms
  by (auto simp: scrapePage_def Let_def split: option.splits fetch_outcome.splits if_splits)

lemma scrapePage_trace:
  assumes "scrapePage env cfg page st = (h, st')"
  shows "\<exists>evs. trace st' = trace st @ evs \<and> (\<forall>e \<in> set evs. fetch_event page e) \<and>
           loads page evs = (if windowIndex cfg page = None then 0 else 1)"
proof (cases "windowIndex cfg page")
  case None
  with assms show ?thesis by (simp add: scrapePage_def)
next
  case (Some w)
  obtain evs where c: "trace (clearCloudflareStatus env (log_event (EvSleep RenderWait 800) (log_event (EvLoad w page) st)))
        = trace (log_event (EvSleep RenderWait 800) (log_event (EvLoad w page) st)) @ evs" and e: "set evs \<subseteq> {EvUnlink}"
    using clearCloudflareStatus_trace by blast
  have l: "loads page evs = 0" using e by (induction evs) auto
  have f: "\<forall>e \<in> set evs. fetch_event page e" using e by auto
  show ?thesis using assms Some c l f
    by (auto simp: scrapePage_def Let_def split: option.splits fetch_outcome.splits if_splits)
qed


lemma scrapePage_Some:
  assumes "scrapePage env cfg page st = (Some c, st')"
  shows "windowIndex cfg page \<noteq> None \<and>
         renderer env page (fetch_count page st) = Rendered (Some c) \<and>
         500 \<le> length c \<and> detectedFailure c = None \<and> statusFile st' = statusFile st"
  using assms
  by (auto simp: scrapePage_def Let_def split: option.splits fetch_outcome.splits if_splits)

text \<open>The inline retry loop.\<close>

lemma attempt_loop_frame:
  "attempt_loop env cfg page a st = (h, st') \<Longrightarrow>
     failedPages st' = failedPages st \<and> processedPages st' = processedPages st \<and>
     allHashesSet st' = allHashesSet st \<and> processedLocal st' = processedLocal st \<and>
     completedCount st' = completedCount st"
proof (induction env cfg page a st rule: attempt_loop.induct)
  case (1 env cfg page attempt st)
  show ?case
  proof (cases "attempt \<le> maxRetries (opts cfg)")
    case False
    with "1.prems" show ?thesis by (simp add: attempt_loop.simps)
  next
    case True
    obtain c st1 where sp: "scrapePage env cfg page st = (c, st1)" by fastforce
    note fr = scrapePage_frame [OF sp]
    show ?thesis
    proof (cases "sufficient c")
      case True
      with \<open>attempt \<le> maxRetries (opts cfg)\<close> sp "1.prems" fr show ?thesis
        by (simp add: attempt_loop.simps [of env cfg page attempt st])
    next
      case False
      with \<open>attempt \<le> maxRetries (opts cfg)\<close> sp "1.prems"
      have "attempt_loop env cfg page (attempt + 1)
              (if attempt < maxRetries (opts cfg)
               then log_event (EvSleep AttemptDelay (min (500 * attempt) 2000)) st1 else st1) = (h, st')"
        by (simp add: attempt_loop.simps [of env cfg page attempt st])
      from "1.IH" [OF True sp [symmetric] False this] fr show ?thesis
        by (simp split: if_splits)
    qed
  qed
qed


lemma attempt_loop_trace:
  "attempt_loop env cfg page a st = (h, st') \<Longrightarrow>
     \<exists>evs. trace st' = trace st @ evs \<and> (\<forall>e \<in> set evs. fetch_event page e) \<and>
       loads page evs \<le> maxRetries (opts cfg) + 1 - a \<and>
       (windowIndex cfg page \<noteq> None \<and> a \<le> maxRetries (opts cfg) \<longrightarrow> 1 \<le> loads page evs) \<and>
       (windowIndex cfg page \<noteq> None \<and> h = None \<longrightarrow> loads page evs = maxRetries (opts cfg) + 1 - a) \<and>
       (h \<noteq> None \<longrightarrow> sufficient h)"
proof (induction env cfg page a st rule: attempt_loop.induct)
  case (1 env cfg page attempt st)
  show ?case
  proof (cases "attempt \<le> maxRetries (opts cfg)")
    case False
    with "1.prems" show ?thesis by (simp add: attempt_loop.simps)
  next
    case True
    obtain c st1 where sp: "scrapePage env cfg page st = (c, st1)" by fastforce
    from scrapePage_trace [OF sp] obtain evs1 where
      t1: "trace st1 = trace st @ evs1" and f1: "\<forall>e \<in> set evs1. fetch_event page e" and
      l1: "loads page evs1 = (if windowIndex cfg page = None then 0 else 1)" by blast
    show ?thesis
    proof (cases "sufficient c")
      case True
      with \<open>attempt \<le> maxRetries (opts cfg)\<close> sp "1.prems" have "h = c" "st' = st1"
        by (simp_all add: attempt_loop.simps [of env cfg page attempt st])
      moreover have "c \<noteq> None" using True by (auto simp: sufficient_def split: option.splits)
      moreover have "windowIndex cfg page \<noteq> None"
        using sp \<open>c \<noteq> None\<close> scrapePage_Some by blast
      ultimately show ?thesis using t1 f1 l1 True \<open>attempt \<le> maxRetries (opts cfg)\<close>
        by (intro exI [of _ evs1]) auto
    next
      case False
      define st2 where "st2 = (if attempt < maxRetries (opts cfg)
               then log_event (EvSleep AttemptDelay (min (500 * attempt) 2000)) st1 else st1)"
      from False \<open>attempt \<le> maxRetries (opts cfg)\<close> sp "1.prems"
      have al: "attempt_loop env cfg page (attempt + 1) st2 = (h, st')"
        by (simp add: attempt_loop.simps [of env cfg page attempt st] st2_def)
      from "1.IH" [OF True sp [symmetric] False al [unfolded st2_def]] obtain evs2 where
        t2: "trace st' = trace st2 @ evs2" and f2: "\<forall>e \<in> set evs2. fetch_event page e" and
        l2: "loads page evs2 \<le> maxRetries (opts cfg) + 1 - (attempt + 1)" and
        m2: "windowIndex cfg page \<noteq> None \<and> h = None \<longrightarrow> loads page evs2 = maxRetries (opts cfg) + 1 - (attempt + 1)" and
        s2: "h \<noteq> None \<longrightarrow> sufficient h"
        unfolding st2_def [symmetric] by blast
      obtain evd where td: "trace st2 = trace st1 @ evd" and fd: "\<forall>e \<in> set evd. fetch_event page e"
        and ld: "loads page evd = 0"
        by (cases "attempt < maxRetries (opts cfg)") (auto simp: st2_def)
      have "trace st' = trace st @ (evs1 @ evd @ evs2)" using t1 td t2 by simp
      moreover have "\<forall>e \<in> set (evs1 @ evd @ evs2). fetch_event page e" using f1 fd f2 by auto
      moreover have "loads page (evs1 @ evd @ evs2) = loads page evs1 + loads page evs2"
        using ld by simp
      ultimately show ?thesis using l1 l2 m2 s2 True
        by (intro exI [of _ "evs1 @ evd @ evs2"]) (auto split: if_splits)
    qed
  qed
qed


lemma scrapePage_rejected:
  assumes "attempt_fails (renderer env page (fetch_count page st))"
  shows "\<not> sufficient (fst (scrapePage env cfg page st))"
  using assms
  by (cases "renderer env page (fetch_count page st)")
     (auto simp: scrapePage_def Let_def sufficient_def split: option.splits)

lemma attempt_loop_all_fail:
  "(\<forall>k. fetch_count page st \<le> k \<and> k < fetch_count page st + (maxRetries (opts cfg) + 1 - a)
        \<longrightarrow> attempt_fails (renderer env page k)) \<Longrightarrow>
   fst (attempt_loop env cfg page a st) = None"
proof (induction env cfg page a st rule: attempt_loop.induct)
  case (1 env cfg page attempt st)
  show ?case
  proof (cases "attempt \<le> maxRetries (opts cfg)")
    case False
    then show ?thesis by (simp add: attempt_loop.simps)
  next
    case True
    obtain c st1 where sp: "scrapePage env cfg page st = (c, st1)" by fastforce
    from True "1.prems" have "attempt_fails (renderer env page (fetch_count page st))" by simp
    from scrapePage_rejected [OF this, of cfg] sp have ns: "\<not> sufficient c" by simp
    define st2 where "st2 = (if attempt < maxRetries (opts cfg)
               then log_event (EvSleep AttemptDelay (min (500 * attempt) 2000)) st1 else st1)"
    from scrapePage_trace [OF sp] obtain evs1 where
      t1: "trace st1 = trace st @ evs1" and
      l1: "loads page evs1 = (if windowIndex cfg page = None then 0 else 1)" by blast
    have fc: "fetch_count page st \<le> fetch_count page st2" "fetch_count page st2 \<le> fetch_count page st + 1"
      using t1 l1 by (auto simp: st2_def fetch_count_loads)
    have "\<forall>k. fetch_count page st2 \<le> k \<and>
              k < fetch_count page st2 + (maxRetries (opts cfg) + 1 - (attempt + 1))
              \<longrightarrow> attempt_fails (renderer env page k)"
      using "1.prems" fc True by auto
    from "1.IH" [OF True sp [symmetric] ns this [unfolded st2_def]]
    have "fst (attempt_loop env cfg page (attempt + 1) st2) = None" by (simp add: st2_def)
    with True sp ns show ?thesis
      by (simp add: attempt_loop.simps [of env cfg page attempt st] st2_def)
  qed
qed

lemma on_result_fulfilled:
  "\<exists>n st'. on_result page h st = (Fulfilled (page, n), st')"
  by (simp add: on_result_def Let_def split: option.splits)

lemma processPage_unfold:
  "processPage env cfg page st =
     (case scrapePageSafe env cfg page
             (log_event (EvSleep WindowCooldown (windowCooldown (opts cfg)))
                (log_event (EvLaunch page) st)) of
        (h, st1) \<Rightarrow> on_result page h st1)"
proof -
  obtain h st1 where sf: "scrapePageSafe env cfg page
             (log_event (EvSleep WindowCooldown (windowCooldown (opts cfg)))
                (log_event (EvLaunch page) st)) = (h, st1)" by fastforce
  obtain n st2 where r: "on_result page h st1 = (Fulfilled (page, n), st2)"
    using on_result_fulfilled by blast
  show ?thesis
    by (simp add: processPage_def processPage_chain_def catch_p_def then_p_def resolve_p_def
        cooldown_fetch_def safe_fetch_def sf r)
qed

lemma processPage_all_fail:
  assumes "\<forall>k. fetch_count page st \<le> k \<and> k < fetch_count page st + maxRetries (opts cfg)
        \<longrightarrow> attempt_fails (renderer env page k)"
  shows "\<exists>st'. processPage env cfg page st = (Fulfilled (page, 0), st') \<and>
           page \<in> set (failedPages st') \<and> allHashesSet st' = allHashesSet st"
proof -
  define st0 where "st0 = log_event (EvSleep WindowCooldown (windowCooldown (opts cfg)))
                (log_event (EvLaunch page) st)"
  have fc: "fetch_count page st0 = fetch_count page st"
    by (simp add: st0_def fetch_count_loads)
  obtain h st1 where al: "attempt_loop env cfg page 1 st0 = (h, st1)" by fastforce
  have "fst (attempt_loop env cfg page 1 st0) = None"
    by (rule attempt_loop_all_fail) (use assms fc in simp)
  with al have h: "h = None" by simp
  from attempt_loop_frame [OF al] have fr: "failedPages st1 = failedPages st" "allHashesSet st1 = allHashesSet st"
    by (simp_all add: st0_def)
  show ?thesis using al h fr
    by (simp add: processPage_unfold scrapePageSafe_def st0_def [symmetric] on_result_def set_add_def)
qed

subsection \<open>C7: insufficient content\<close>

lemma scrapePage_short:
  assumes "short_content (renderer env page (fetch_count page st))"
  shows "fst (scrapePage env cfg page st) = None"
  using assms
  by (cases "renderer env page (fetch_count page st)")
     (auto simp: scrapePage_def Let_def split: option.splits)

lemma short_content_fails: "short_content out \<Longrightarrow> attempt_fails out"
  by (cases out rule: attempt_fails.cases) auto

text \<open>
  C7: a fetch whose content is absent or shorter than 500 gives an attempt with no content
  (\<open>null\<close>) and leaves the hash set as it was; when every attempt of the inline retry
  budget of a page task is such a fetch, the task settles with zero hashes, the hash set
  is unchanged and the page is in \<open>failedPages\<close>.
\<close>

theorem C7_insufficient_content_failed:
  "(short_content (renderer env page (fetch_count page st)) \<longrightarrow>
      fst (scrapePage env cfg page st) = None \<and>
      allHashesSet (snd (scrapePage env cfg page st)) = allHashesSet st) \<and>
   ((\<forall>k. fetch_count page st \<le> k \<and> k < fetch_count page st + maxRetries (opts cfg)
          \<longrightarrow> short_content (renderer env page k)) \<longrightarrow>
      (\<exists>st'. processPage env cfg page st = (Fulfilled (page, 0), st') \<and>
             page \<in> set (failedPages st') \<and> allHashesSet st' = allHashesSet st))"
proof (intro conjI impI)
  assume s: "short_content (renderer env page (fetch_count page st))"
  show "fst (scrapePage env cfg page st) = None" by (rule scrapePage_short [OF s])
  show "allHashesSet (snd (scrapePage env cfg page st)) = allHashesSet st"
    using scrapePage_frame [of env cfg page st] by (cases "scrapePage env cfg page st") simp
next
  assume "\<forall>k. fetch_count page st \<le> k \<and> k < fetch_count page st + maxRetries (opts cfg)
          \<longrightarrow> short_content (renderer env page k)"
  then have "\<forall>k. fetch_count page st \<le> k \<and> k < fetch_count page st + maxRetries (opts cfg)
          \<longrightarrow> attempt_fails (renderer env page k)"
    using short_content_fails by blast
  then show "\<exists>st'. processPage env cfg page st = (Fulfilled (page, 0), st') \<and>
             page \<in> set (failedPages st') \<and> allHashesSet st' = allHashesSet st"
    by (rule processPage_all_fail)
qed

theorem C7_insufficient_content_failed_witness:
  "short_content (renderer env_short 3 (fetch_count 3 (new_state True))) \<and>
   fst (scrapePage env_short (ExternalScrapper 2 4) 3 (new_state True)) = None \<and>
   (\<exists>st'. processPage env_short (ExternalScrapper 2 4) 3 (new_state True)
             = (Fulfilled (3, 0), st') \<and>
          3 \<in> set (failedPages st') \<and> allHashesSet st' = [])"
  using C7_insufficient_content_failed [of env_short 3 "new_state True" "ExternalScrapper 2 4"]
  by (simp add: env_short_def new_state_def)

subsection \<open>C5: what the error count of a wave counts\<close>

lemma processPage_fulfilled:
  "\<exists>n st'. processPage env cfg page st = (Fulfilled (page, n), st')"
proof -
  obtain h st1 where "scrapePageSafe env cfg page
             (log_event (EvSleep WindowCooldown (windowCooldown (opts cfg)))
                (log_event (EvLaunch page) st)) = (h, st1)" by fastforce
  then show ?thesis using on_result_fulfilled [of page h st1]
    by (simp add: processPage_unfold)
qed

lemma launch_batch_fulfilled:
  "launch_batch env cfg pages st = (ps, st') \<Longrightarrow>
     length ps = length pages \<and> (\<forall>p \<in> set ps. \<not> is_rejected p)"
proof (induction pages arbitrary: st ps st')
  case Nil
  then show ?case by simp
next
  case (Cons page pages)
  obtain n st1 where p: "processPage env cfg page st = (Fulfilled (page, n), st1)"
    using processPage_fulfilled by blast
  obtain qs st2 where l: "launch_batch env cfg pages st1 = (qs, st2)" by fastforce
  from Cons.prems p l have "ps = Fulfilled (page, n) # qs" by simp
  with Cons.IH [OF l] show ?case by simp
qed

lemma count_rejected_settle:
  "length ps = length pages \<Longrightarrow> \<forall>p \<in> set ps. \<not> is_rejected p \<Longrightarrow>
     count_rejected (settle_batch env pages ps) = length (filter (batchTimeout env) pages)"
proof (induction pages arbitrary: ps)
  case Nil
  then show ?case by (simp add: count_rejected_def settle_batch_def)
next
  case (Cons page pages)
  then obtain q qs where ps: "ps = q # qs" by (cases ps) auto
  with Cons.prems have "length qs = length pages" "\<forall>p \<in> set qs. \<not> is_rejected p" "\<not> is_rejected q"
    by auto
  with Cons.IH [of qs] ps show ?case
    by (auto simp: count_rejected_def settle_batch_def race_timeout_def)
qed

text \<open>
  C5: a page task of the wave loop always settles fulfilled, whatever its fetch stage does
  (the chain is studied for any stage, also one that rejects); when the stage rejects or
  yields no content the value is \<open>(page, 0)\<close> and the page is in \<open>failedPages\<close>. So the
  rejected entries of \<open>batchResults\<close>, which \<open>batchErrors\<close> counts, are exactly the tasks
  whose 45000 ms timer won the race.
\<close>

theorem C5_only_batch_timeouts_counted:
  "(\<exists>n st'. processPage_chain fetch cfg page st = (Fulfilled (page, n), st')) \<and>
   ((\<exists>e st1. cooldown_fetch fetch cfg page st = (Rejected e, st1)) \<or>
    (\<exists>st1. cooldown_fetch fetch cfg page st = (Fulfilled None, st1)) \<longrightarrow>
      (\<exists>st'. processPage_chain fetch cfg page st = (Fulfilled (page, 0), st') \<and>
             page \<in> set (failedPages st'))) \<and>
   count_rejected (settle_batch env pages (fst (launch_batch env cfg pages st))) =
     length (filter (batchTimeout env) pages)"
proof (intro conjI impI)
  obtain r st1 where f: "cooldown_fetch fetch cfg page st = (r, st1)" by fastforce
  show "\<exists>n st'. processPage_chain fetch cfg page st = (Fulfilled (page, n), st')"
  proof (cases r)
    case (Fulfilled h)
    obtain n st2 where "on_result page h st1 = (Fulfilled (page, n), st2)"
      using on_result_fulfilled by blast
    with f Fulfilled show ?thesis
      by (simp add: processPage_chain_def catch_p_def then_p_def resolve_p_def)
  next
    case (Rejected e)
    with f show ?thesis
      by (simp add: processPage_chain_def catch_p_def then_p_def resolve_p_def on_error_def)
  qed
next
  assume "(\<exists>e st1. cooldown_fetch fetch cfg page st = (Rejected e, st1)) \<or>
    (\<exists>st1. cooldown_fetch fetch cfg page st = (Fulfilled None, st1))"
  then show "\<exists>st'. processPage_chain fetch cfg page st = (Fulfilled (page, 0), st') \<and>
             page \<in> set (failedPages st')"
    by (auto simp: processPage_chain_def catch_p_def then_p_def resolve_p_def on_error_def
        on_result_def set_add_def)
next
  obtain ps st' where l: "launch_batch env cfg pages st = (ps, st')" by fastforce
  from launch_batch_fulfilled [OF l] count_rejected_settle [of ps pages env] l
  show "count_rejected (settle_batch env pages (fst (launch_batch env cfg pages st))) =
     length (filter (batchTimeout env) pages)" by simp
qed

lemma attempt_loop_down:
  "fst (attempt_loop env_down cfg page a st) = None"
  by (rule attempt_loop_all_fail) (simp add: env_down_def)

theorem C5_only_batch_timeouts_counted_witness:
  "cooldown_fetch (safe_fetch env_down (ExternalScrapper 3 3)) (ExternalScrapper 3 3) 1
       (new_state True) =
     (Fulfilled None,
      snd (cooldown_fetch (safe_fetch env_down (ExternalScrapper 3 3)) (ExternalScrapper 3 3) 1
             (new_state True))) \<and>
   (\<exists>st'. processPage_chain (safe_fetch env_down (ExternalScrapper 3 3)) (ExternalScrapper 3 3) 1
             (new_state True) = (Fulfilled (1, 0), st') \<and> 1 \<in> set (failedPages st')) \<and>
   count_rejected (settle_batch env_down [1, 2, 3]
       (fst (launch_batch env_down (ExternalScrapper 3 3) [1, 2, 3] (new_state True)))) = 1"
proof -
  have f: "cooldown_fetch (safe_fetch env_down (ExternalScrapper 3 3)) (ExternalScrapper 3 3) 1
       (new_state True) =
     (Fulfilled None,
      snd (cooldown_fetch (safe_fetch env_down (ExternalScrapper 3 3)) (ExternalScrapper 3 3) 1
             (new_state True)))"
  proof -
    obtain h st1 where al: "attempt_loop env_down (ExternalScrapper 3 3) 1 1
        (log_event (EvSleep WindowCooldown (windowCooldown (opts (ExternalScrapper 3 3))))
           (new_state True)) = (h, st1)" by fastforce
    with attempt_loop_down [of "ExternalScrapper 3 3" 1 1] have "h = None"
      by (metis fst_conv)
    with al show ?thesis
      by (simp add: cooldown_fetch_def safe_fetch_def scrapePageSafe_def)
  qed
  note T = C5_only_batch_timeouts_counted
    [of "safe_fetch env_down (ExternalScrapper 3 3)" "ExternalScrapper 3 3" 1 "new_state True"
        env_down "[1, 2, 3]"]
  from f have "\<exists>st1. cooldown_fetch (safe_fetch env_down (ExternalScrapper 3 3))
      (ExternalScrapper 3 3) 1 (new_state True) = (Fulfilled None, st1)" by (rule exI)
  with T have p: "\<exists>st'. processPage_chain (safe_fetch env_down (ExternalScrapper 3 3))
      (ExternalScrapper 3 3) 1 (new_state True) = (Fulfilled (1, 0), st') \<and>
      1 \<in> set (failedPages st')" by blast
  have "count_rejected (settle_batch env_down [1, 2, 3]
       (fst (launch_batch env_down (ExternalScrapper 3 3) [1, 2, 3] (new_state True)))) =
       length (filter (batchTimeout env_down) [1, 2, 3])"
    using T by (rule_tac conjunct2 [OF conjunct2])
  also have "\<dots> = 1" by (simp add: env_down_def)
  finally show ?thesis using f p by blast
qed

subsection \<open>Lemmas on the wave loop and the Retry Pass\<close>

lemma launches_append [simp]: "launches (xs @ ys) = launches xs @ launches ys"
  by (induction xs rule: launches.induct) auto

lemma launches_fetch_events:
  "\<forall>e \<in> set evs. \<exists>p. fetch_event p e \<Longrightarrow> launches evs = []"
proof (induction evs)
  case Nil
  then show ?case by simp
next
  case (Cons e evs)
  then show ?case by (cases e) auto
qed

lemma on_result_trace:
  "on_result page h st = (r, st') \<Longrightarrow> trace st' = trace st \<and> statusFile st' = statusFile st"
  by (auto simp: on_result_def Let_def split: option.splits if_splits)

lemma scrapePageSafe_trace:
  assumes "scrapePageSafe env cfg page st = (h, st')"
  shows "\<exists>evs. trace st' = trace st @ evs \<and> (\<forall>e \<in> set evs. fetch_event page e) \<and>
       loads page evs \<le> maxRetries (opts cfg) \<and>
       (windowIndex cfg page \<noteq> None \<and> 1 \<le> maxRetries (opts cfg) \<longrightarrow> 1 \<le> loads page evs) \<and>
       (windowIndex cfg page \<noteq> None \<and> h = None \<longrightarrow> loads page evs = maxRetries (opts cfg)) \<and>
       (h \<noteq> None \<longrightarrow> sufficient h)"
  using attempt_loop_trace [OF assms [unfolded scrapePageSafe_def]] by simp

lemma processPage_trace:
  assumes "processPage env cfg page st = (r, st')"
  shows "\<exists>evs. trace st' =
           trace st @ [EvLaunch page, EvSleep WindowCooldown (windowCooldown (opts cfg))] @ evs \<and>
           (\<forall>e \<in> set evs. fetch_event page e) \<and> loads page evs \<le> maxRetries (opts cfg)"
proof -
  obtain h st1 where sf: "scrapePageSafe env cfg page
             (log_event (EvSleep WindowCooldown (windowCooldown (opts cfg)))
                (log_event (EvLaunch page) st)) = (h, st1)" by fastforce
  with assms have "on_result page h st1 = (r, st')" by (simp add: processPage_unfold)
  then have "trace st' = trace st1" using on_result_trace by blast
  with scrapePageSafe_trace [OF sf] show ?thesis by auto
qed

lemma processPage_launches:
  "launches (trace (snd (processPage env cfg page st))) = launches (trace st) @ [page]"
proof -
  obtain r st' where p: "processPage env cfg page st = (r, st')" by fastforce
  from processPage_trace [OF p] obtain evs where
    t: "trace st' = trace st @ [EvLaunch page, EvSleep WindowCooldown (windowCooldown (opts cfg))] @ evs"
    and f: "\<forall>e \<in> set evs. fetch_event page e" by blast
  from f have "launches evs = []" by (intro launches_fetch_events) blast
  with t p show ?thesis by simp
qed

text \<open>An invariant indexed by the next page to launch is carried through a wave.\<close>

lemma launch_batch_invariant:
  assumes step: "\<And>p s. lo \<le> p \<Longrightarrow> p < b \<Longrightarrow> I p s \<Longrightarrow> I (Suc p) (snd (processPage env cfg p s))"
  shows "lo \<le> a \<Longrightarrow> a \<le> b \<Longrightarrow> I a st \<Longrightarrow> I b (snd (launch_batch env cfg [a ..< b] st))"
proof (induction "b - a" arbitrary: a st)
  case 0
  then show ?case by simp
next
  case (Suc n)
  then have ab: "a < b" by simp
  obtain r st1 where p: "processPage env cfg a st = (r, st1)" by fastforce
  obtain rs st2 where l: "launch_batch env cfg [Suc a ..< b] st1 = (rs, st2)" by fastforce
  have "I (Suc a) st1" using step [of a st] Suc.prems ab p by simp
  moreover have "n = b - Suc a" using Suc.hyps(2) by simp
  ultimately have "I b (snd (launch_batch env cfg [Suc a ..< b] st1))"
    using Suc.hyps(1) [of "Suc a" st1] Suc.prems ab by simp
  moreover have "[a ..< b] = a # [Suc a ..< b]" using ab by (simp add: upt_conv_Cons)
  ultimately show ?case using p l by simp
qed

lemma wave_loop_invariant:
  assumes W: "0 < maxWindows cfg"
    and step: "\<And>p s. lo \<le> p \<Longrightarrow> p \<le> N \<Longrightarrow> I p s \<Longrightarrow> I (Suc p) (snd (processPage env cfg p s))"
    and wait: "\<And>p d s. I p s \<Longrightarrow> I p (log_event (EvSleep WaveDelay d) s)"
  shows "lo \<le> bs \<Longrightarrow> I bs st \<Longrightarrow>
         \<exists>ec' st'. wave_loop env cfg N bs ec st = Some (ec', st') \<and> I (max bs (Suc N)) st'"
proof (induction "Suc N - bs" arbitrary: bs ec st rule: less_induct)
  case less
  show ?case
  proof (cases "bs \<le> N")
    case False
    then have "max bs (Suc N) = bs" by simp
    with False less.prems show ?thesis by (simp add: wave_loop.simps)
  next
    case True
    define batchEnd where "batchEnd = min (bs + maxWindows cfg - 1) N"
    have be: "bs \<le> batchEnd" "batchEnd \<le> N" using W True by (auto simp: batchEnd_def)
    obtain cb st1 where l: "launch_batch env cfg [bs ..< batchEnd + 1] st = (cb, st1)"
      by fastforce
    have "I (batchEnd + 1) (snd (launch_batch env cfg [bs ..< batchEnd + 1] st))"
    proof (rule launch_batch_invariant [where lo = lo])
      fix p s assume "lo \<le> p" "p < batchEnd + 1" "I p s"
      then show "I (Suc p) (snd (processPage env cfg p s))" using step be by simp
    qed (use less.prems be in auto)
    with l have i1: "I (batchEnd + 1) st1" by simp
    define batchErrors where
      "batchErrors = count_rejected (settle_batch env [bs ..< batchEnd + 1] cb)"
    define st2 where "st2 = (if batchEnd + 1 \<le> N then
                              (case wave_wait (opts cfg) batchErrors of
                                 Some delay \<Rightarrow> log_event (EvSleep WaveDelay delay) st1
                               | None \<Rightarrow> st1)
                            else st1)"
    have i2: "I (batchEnd + 1) st2" using i1 wait by (auto simp: st2_def split: option.splits)
    have unf: "wave_loop env cfg N bs ec st =
                 wave_loop env cfg N (batchEnd + 1) (ec + batchErrors) st2"
      using True l
      by (subst wave_loop.simps) (simp add: Let_def batchEnd_def batchErrors_def st2_def)
    have "Suc N - (batchEnd + 1) < Suc N - bs" using be True by simp
    from less.hyps [OF this _ i2, of "ec + batchErrors"] less.prems be
    obtain ec' st' where "wave_loop env cfg N (batchEnd + 1) (ec + batchErrors) st2 = Some (ec', st')"
      "I (max (batchEnd + 1) (Suc N)) st'" by auto
    moreover have "max (batchEnd + 1) (Suc N) = max bs (Suc N)" using be True by simp
    ultimately show ?thesis using unf by simp
  qed
qed


lemma retry_page_trace:
  assumes "retry_page env cfg page st = (r, st')"
  shows "\<exists>evs. trace st' = trace st @ evs \<and> (\<forall>e \<in> set evs. fetch_event page e) \<and>
       loads page evs \<le> maxRetries (opts cfg) \<and>
       (windowIndex cfg page \<noteq> None \<and> 1 \<le> maxRetries (opts cfg) \<longrightarrow> 1 \<le> loads page evs)"
proof -
  obtain h st1 where sf: "scrapePageSafe env cfg page st = (h, st1)" by fastforce
  with assms have "trace st' = trace st1"
    by (auto simp: retry_page_def Let_def split: option.splits if_splits)
  with scrapePageSafe_trace [OF sf] show ?thesis by auto
qed



lemma retry_all_events:
  "retry_all env cfg pages st = (rs, st') \<Longrightarrow>
   \<exists>evs. trace st' = trace st @ evs \<and> (\<forall>e \<in> set evs. \<exists>p \<in> set pages. fetch_event p e)"
proof (induction pages arbitrary: st rs st')
  case Nil
  then show ?case by simp
next
  case (Cons page pages)
  obtain r st1 where rp: "retry_page env cfg page st = (r, st1)" by fastforce
  obtain qs st2 where ra: "retry_all env cfg pages st1 = (qs, st2)" by fastforce
  from Cons.prems rp ra have st': "st' = st2" by simp
  from retry_page_trace [OF rp] obtain evs1 where
    t1: "trace st1 = trace st @ evs1" and f1: "\<forall>e \<in> set evs1. fetch_event page e" by blast
  from Cons.IH [OF ra] obtain evs2 where
    t2: "trace st2 = trace st1 @ evs2" and
    f2: "\<forall>e \<in> set evs2. \<exists>p \<in> set pages. fetch_event p e" by blast
  have "trace st' = trace st @ (evs1 @ evs2)" using t1 t2 st' by simp
  moreover have "\<forall>e \<in> set (evs1 @ evs2). \<exists>p \<in> set (page # pages). fetch_event p e"
    using f1 f2 by auto
  ultimately show ?case by blast
qed

lemma retryFailedPages_launches:
  "launches (trace (retryFailedPages env cfg st)) = launches (trace st)"
proof -
  obtain rs st' where ra: "retry_all env cfg (failedPages st) st = (rs, st')" by fastforce
  from retry_all_events [OF ra] obtain evs where
    "trace st' = trace st @ evs" "\<forall>e \<in> set evs. \<exists>p \<in> set (failedPages st). fetch_event p e"
    by blast
  moreover from this have "launches evs = []" by (intro launches_fetch_events) blast
  ultimately show ?thesis using ra by (simp add: retryFailedPages_def)
qed

lemma wave_loop_launches:
  assumes "0 < maxWindows cfg"
  shows "\<exists>ec' st'. wave_loop env cfg N 1 ec st = Some (ec', st') \<and>
           launches (trace st') = launches (trace st) @ [1 ..< Suc N]"
proof -
  define I where "I = (\<lambda>p (s::state). launches (trace s) = launches (trace st) @ [1 ..< p])"
  have "\<exists>ec' st'. wave_loop env cfg N 1 ec st = Some (ec', st') \<and> I (max 1 (Suc N)) st'"
  proof (rule wave_loop_invariant [where lo = 1 and I = I, OF assms])
    fix p s assume "1 \<le> p" "I p s"
    then show "I (Suc p) (snd (processPage env cfg p s))"
      by (simp add: I_def processPage_launches)
  next
    fix p d s assume "I p s"
    then show "I p (log_event (EvSleep WaveDelay d) s)" by (simp add: I_def)
  qed (simp_all add: I_def)
  then show ?thesis by (simp add: I_def)
qed

subsection \<open>C8: the number of pages scheduled\<close>

lemma detect_no_marker: "detect_script None None = 1"
  by (simp add: detect_script_def truthy_def)

text \<open>
  C8: with at least one window \<open>scrappe\<close> returns, and the pages for which a task was
  launched are \<open>1 .. min(detected, totalPages)\<close>, each once: their number is the minimum,
  a larger request is clamped without an error. A first page without pagination elements
  gives a detected total of 1, and with a detected total of 1 and a request of at least
  one page exactly page 1 is launched.
\<close>

theorem C8_pages_scheduled:
  assumes "0 < maxWindows cfg"
  shows "\<exists>hs st'. scrappe env cfg st = Some (hs, st') \<and>
           launches (trace st') =
             launches (trace st) @ [1 ..< Suc (min (detectTotalPages env cfg) (totalPages cfg))] \<and>
           length (launches (trace st')) =
             length (launches (trace st)) + min (detectTotalPages env cfg) (totalPages cfg) \<and>
           (detection env = DetectDom None None \<longrightarrow> detectTotalPages env cfg = 1) \<and>
           (detectTotalPages env cfg = 1 \<and> 1 \<le> totalPages cfg \<longrightarrow>
              launches (trace st') = launches (trace st) @ [1])"
proof -
  define N where "N = min (detectTotalPages env cfg) (totalPages cfg)"
  define st0 where "st0 = st\<lparr>allHashesSet := [], processedLocal := [], completedCount := 0\<rparr>"
  from wave_loop_launches [OF assms, of env N 0 st0] obtain ec' st1 where
    w: "wave_loop env cfg N 1 0 st0 = Some (ec', st1)" and
    l: "launches (trace st1) = launches (trace st) @ [1 ..< Suc N]"
    by (auto simp: st0_def)
  define st2 where "st2 = (if autoRetryFailed (opts cfg) \<and> failedPages st1 \<noteq> []
                         then retryFailedPages env cfg st1 else st1)"
  have s: "scrappe env cfg st = Some (allHashesSet st1, st2)"
    using w by (simp add: scrappe_def Let_def N_def st0_def st2_def)
  have l2: "launches (trace st2) = launches (trace st) @ [1 ..< Suc N]"
    using l by (simp add: st2_def retryFailedPages_launches)
  have d: "detection env = DetectDom None None \<longrightarrow> detectTotalPages env cfg = 1"
    by (simp add: detectTotalPages_def detect_no_marker)
  have "detectTotalPages env cfg = 1 \<and> 1 \<le> totalPages cfg \<longrightarrow> N = 1"
    by (auto simp: N_def)
  with s l2 d show ?thesis unfolding N_def [symmetric] by auto
qed


theorem C8_pages_scheduled_witness:
  "0 < maxWindows (ExternalScrapper 5 10) \<and>
   detectTotalPages env_down (ExternalScrapper 5 10) = 37 \<and>
   (\<exists>hs st'. scrappe env_down (ExternalScrapper 5 10) (new_state True) = Some (hs, st') \<and>
      launches (trace st') = [1, 2, 3, 4, 5, 6, 7, 8, 9, 10]) \<and>
   detection env_short = DetectDom None None \<and>
   (\<exists>hs st'. scrappe env_short (ExternalScrapper 5 10) (new_state True) = Some (hs, st') \<and>
      launches (trace st') = [1])"
proof -
  have w: "0 < maxWindows (ExternalScrapper 5 10)" by (simp add: ExternalScrapper_def)
  have d: "detectTotalPages env_down (ExternalScrapper 5 10) = 37" by code_simp
  have t: "totalPages (ExternalScrapper 5 10) = 10" by (simp add: ExternalScrapper_def)
  have u: "[1 ..< Suc (min 37 10)] = [1, 2, 3, 4, 5, 6, 7, 8, 9, 10 :: nat]" by code_simp
  have e: "detection env_short = DetectDom None None" by (simp add: env_short_def)
  have n: "launches (trace (new_state True)) = []" by (simp add: new_state_def)
  from C8_pages_scheduled [OF w, of env_down "new_state True"] d t u n
  have a: "\<exists>hs st'. scrappe env_down (ExternalScrapper 5 10) (new_state True) = Some (hs, st') \<and>
      launches (trace st') = [1, 2, 3, 4, 5, 6, 7, 8, 9, 10]" by auto
  from C8_pages_scheduled [OF w, of env_short "new_state True"] e t n
  have b: "\<exists>hs st'. scrappe env_short (ExternalScrapper 5 10) (new_state True) = Some (hs, st') \<and>
      launches (trace st') = [1]" by auto
  from w d a e b show ?thesis by blast
qed

subsection \<open>Lemmas on the link pattern\<close>

lemma starts_with_iff: "starts_with s xs \<longleftrightarrow> (\<exists>r. s = xs @ r)"
  by (induction s xs rule: starts_with.induct) auto

lemma rx_match_lits:
  "rx_match (map Lit xs @ its) s =
     (if starts_with s xs then rx_match its (drop (length xs) s) else None)"
proof (induction xs arbitrary: s)
  case Nil
  then show ?case by simp
next
  case (Cons x xs)
  then show ?case by (cases s) auto
qed

lemma rx_match_lits_append: "rx_match (map Lit xs @ its) (xs @ s) = rx_match its s"
  by (simp add: rx_match_lits starts_with_iff)

lemma rx_match_classes:
  "rx_match (replicate n (Cls P) @ its) s =
     (if n \<le> length s \<and> list_all P (take n s) then rx_match its (drop n s) else None)"
proof (induction n arbitrary: s)
  case 0
  then show ?case by simp
next
  case (Suc n)
  then show ?case by (cases s) auto
qed

lemma rx_match_group:
  "rx_match (map Lit a @ [Mark] @ map Lit b @ replicate n (Cls P) @ [Mark] @ [Lit d]) t = Some (ms, r) \<longleftrightarrow>
     (\<exists>ds. t = a @ b @ ds @ d # r \<and> length ds = n \<and> list_all P ds \<and>
           ms = [b @ ds @ d # r, d # r])"
proof
  assume m: "rx_match (map Lit a @ [Mark] @ map Lit b @ replicate n (Cls P) @ [Mark] @ [Lit d]) t = Some (ms, r)"
  then have "starts_with t a" by (simp add: rx_match_lits split: if_splits)
  then obtain t1 where t1: "t = a @ t1" using starts_with_iff by blast
  with m have "rx_match (Mark # map Lit b @ replicate n (Cls P) @ [Mark] @ [Lit d]) t1 = Some (ms, r)"
    by (simp add: rx_match_lits_append)
  then obtain ms1 where ms: "ms = t1 # ms1" and
    m2: "rx_match (map Lit b @ replicate n (Cls P) @ [Mark] @ [Lit d]) t1 = Some (ms1, r)"
    by (auto split: option.splits)
  from m2 have "starts_with t1 b" by (simp add: rx_match_lits split: if_splits)
  then obtain t2 where t2: "t1 = b @ t2" using starts_with_iff by blast
  with m2 have m3: "rx_match (replicate n (Cls P) @ [Mark] @ [Lit d]) t2 = Some (ms1, r)"
    by (simp add: rx_match_lits_append)
  then have c: "n \<le> length t2" "list_all P (take n t2)" and
    m4: "rx_match ([Mark] @ [Lit d]) (drop n t2) = Some (ms1, r)"
    by (simp_all add: rx_match_classes split: if_splits)
  from m4 have e: "drop n t2 = d # r" "ms1 = [d # r]"
    by (cases "drop n t2"; auto split: if_splits)+
  have "t2 = take n t2 @ d # r" using e by (metis append_take_drop_id)
  with t1 t2 ms e c show "\<exists>ds. t = a @ b @ ds @ d # r \<and> length ds = n \<and> list_all P ds \<and>
           ms = [b @ ds @ d # r, d # r]"
    by (intro exI [of _ "take n t2"]) auto
next
  assume "\<exists>ds. t = a @ b @ ds @ d # r \<and> length ds = n \<and> list_all P ds \<and>
           ms = [b @ ds @ d # r, d # r]"
  then obtain ds where t: "t = a @ b @ ds @ d # r" and l: "length ds = n" and x: "list_all P ds"
    and ms: "ms = [b @ ds @ d # r, d # r]" by blast
  have "rx_match (replicate n (Cls P) @ [Mark] @ [Lit d]) (ds @ d # r) = Some ([d # r], r)"
    using l x by (simp add: rx_match_classes)
  then have "rx_match (map Lit b @ replicate n (Cls P) @ [Mark] @ [Lit d]) (b @ ds @ d # r) = Some ([d # r], r)"
    by (simp only: rx_match_lits_append)
  then have "rx_match (Mark # map Lit b @ replicate n (Cls P) @ [Mark] @ [Lit d]) (b @ ds @ d # r) = Some (ms, r)"
    using ms by simp
  then show "rx_match (map Lit a @ [Mark] @ map Lit b @ replicate n (Cls P) @ [Mark] @ [Lit d]) t = Some (ms, r)"
    unfolding t by (simp only: rx_match_lits_append append.simps)
qed

lemma hashRegex_split:
  "hashRegex = map Lit (''href='' @ [dquote]) @ Star not_quote # link_tail"
  by (simp add: hashRegex_def link_tail_def)

lemma is_hash_iff: "is_hash h \<longleftrightarrow> (\<exists>ds. h = ''0x'' @ ds \<and> length ds = 64 \<and> list_all is_hex ds)"
proof
  assume a: "is_hash h"
  have "h = take 2 h @ drop 2 h" by (metis append_take_drop_id)
  with a have "h = ''0x'' @ drop 2 h" by (simp add: is_hash_def)
  moreover from a have "length (drop 2 h) = 64" "list_all is_hex (drop 2 h)"
    by (simp_all add: is_hash_def)
  ultimately show "\<exists>ds. h = ''0x'' @ ds \<and> length ds = 64 \<and> list_all is_hex ds" by blast
next
  assume "\<exists>ds. h = ''0x'' @ ds \<and> length ds = 64 \<and> list_all is_hex ds"
  then show "is_hash h" by (auto simp: is_hash_def)
qed

lemma link_tail_iff:
  "rx_match link_tail t = Some (ms, r) \<longleftrightarrow>
     (\<exists>h. is_hash h \<and> t = ''/tx/'' @ h @ dquote # r \<and> ms = [h @ dquote # r, dquote # r])"
proof -
  have "rx_match link_tail t = Some (ms, r) \<longleftrightarrow>
     (\<exists>ds. t = ''/tx/'' @ ''0x'' @ ds @ dquote # r \<and> length ds = 64 \<and> list_all is_hex ds \<and>
           ms = [''0x'' @ ds @ dquote # r, dquote # r])"
    unfolding link_tail_def by (rule rx_match_group)
  also have "\<dots> \<longleftrightarrow> (\<exists>h. is_hash h \<and> t = ''/tx/'' @ h @ dquote # r \<and> ms = [h @ dquote # r, dquote # r])"
    unfolding is_hash_iff by (auto simp del: append.simps)
  finally show ?thesis .
qed


lemma star_sound:
  "rx_match (Star P # its) s = Some res \<Longrightarrow>
     \<exists>q t. s = q @ t \<and> list_all P q \<and> rx_match its t = Some res"
proof (induction s)
  case Nil
  then show ?case by simp
next
  case (Cons x xs)
  show ?case
  proof (cases "P x \<and> rx_match (Star P # its) xs \<noteq> None")
    case True
    with Cons.prems have "rx_match (Star P # its) xs = Some res" by auto
    from Cons.IH [OF this] obtain q t where "xs = q @ t" "list_all P q" "rx_match its t = Some res"
      by blast
    with True show ?thesis by (intro exI [of _ "x # q"] exI [of _ t]) simp
  next
    case False
    with Cons.prems have "rx_match its (x # xs) = Some res"
      by (auto split: if_splits option.splits)
    then show ?thesis by (intro exI [of _ "[]"] exI [of _ "x # xs"]) simp
  qed
qed

lemma is_hex_not_quote: "is_hex c \<Longrightarrow> c \<noteq> dquote"
  by (auto simp: is_hex_def dquote_def)

lemma is_hash_no_quote:
  assumes "is_hash h"
  shows "dquote \<notin> set h"
proof -
  from assms obtain ds where h: "h = ''0x'' @ ds" and x: "list_all is_hex ds"
    using is_hash_iff by blast
  from x have "dquote \<notin> set ds" using is_hex_not_quote by (auto simp: list_all_iff)
  then show ?thesis unfolding h by (simp add: dquote_def)
qed

lemma is_hash_length: "is_hash h \<Longrightarrow> length h = 66"
  by (simp add: is_hash_def)

lemma link_tail_first_quote:
  assumes "rx_match link_tail t = Some (ms, r)"
  shows "\<exists>u. t = u @ dquote # r \<and> dquote \<notin> set u \<and> length u = 70"
proof -
  from assms obtain h where h: "is_hash h" "t = ''/tx/'' @ h @ dquote # r"
    using link_tail_iff by blast
  have "dquote \<notin> set (''/tx/'' @ h)" using is_hash_no_quote [OF h(1)] by (simp add: dquote_def)
  moreover have "length (''/tx/'' @ h) = 70" using is_hash_length [OF h(1)] by simp
  moreover have "t = (''/tx/'' @ h) @ dquote # r" using h(2) by simp
  ultimately show ?thesis by blast
qed

lemma first_split:
  "c \<notin> set u \<Longrightarrow> c \<notin> set v \<Longrightarrow> u @ c # x = v @ c # y \<Longrightarrow> u = v \<and> x = y"
proof (induction u arbitrary: v)
  case Nil
  then show ?case by (cases v) auto
next
  case (Cons a u)
  then show ?case by (cases v) auto
qed

lemma star_link_none:
  assumes "s = u @ dquote # r" "dquote \<notin> set u" "length u < 70"
  shows "rx_match (Star not_quote # link_tail) s = None"
proof (rule ccontr)
  assume "rx_match (Star not_quote # link_tail) s \<noteq> None"
  then obtain ms r' where "rx_match (Star not_quote # link_tail) s = Some (ms, r')" by auto
  from star_sound [OF this] obtain q t where
    s: "s = q @ t" and q: "list_all not_quote q" and m: "rx_match link_tail t = Some (ms, r')"
    by blast
  from link_tail_first_quote [OF m] obtain u' where
    u': "t = u' @ dquote # r'" "dquote \<notin> set u'" "length u' = 70" by blast
  have nq: "dquote \<notin> set (q @ u')" using q u'(2) by (auto simp: list_all_iff not_quote_def)
  have "s = (q @ u') @ dquote # r'" unfolding s u'(1) by simp
  with assms(1) have eq: "u @ dquote # r = (q @ u') @ dquote # r'" by (rule subst)
  have "u = q @ u' \<and> r = r'" by (rule first_split [OF assms(2) nq eq])
  with u'(3) assms(3) show False by simp
qed

lemma star_link_iff:
  "rx_match (Star not_quote # link_tail) s = Some (ms, r) \<longleftrightarrow>
     (\<exists>q t. s = q @ t \<and> dquote \<notin> set q \<and> rx_match link_tail t = Some (ms, r))"
proof
  assume "rx_match (Star not_quote # link_tail) s = Some (ms, r)"
  from star_sound [OF this] show "\<exists>q t. s = q @ t \<and> dquote \<notin> set q \<and> rx_match link_tail t = Some (ms, r)"
    by (auto simp: list_all_iff not_quote_def)
next
  assume "\<exists>q t. s = q @ t \<and> dquote \<notin> set q \<and> rx_match link_tail t = Some (ms, r)"
  then obtain q t where s: "s = q @ t" and q: "dquote \<notin> set q" and
    m: "rx_match link_tail t = Some (ms, r)" by blast
  from link_tail_first_quote [OF m] obtain u where
    u: "t = u @ dquote # r" "dquote \<notin> set u" "length u = 70" by blast
  then obtain c u' where cu: "u = c # u'" by (cases u) auto
  have "rx_match (Star not_quote # link_tail) (u' @ dquote # r) = None"
    by (rule star_link_none [where u = u' and r = r]) (use u cu in auto)
  then have base: "rx_match (Star not_quote # link_tail) t = Some (ms, r)"
    using m u cu by (auto simp: not_quote_def)
  from q show "rx_match (Star not_quote # link_tail) s = Some (ms, r)" unfolding s
  proof (induction q)
    case Nil
    then show ?case using base by simp
  next
    case (Cons x q)
    then show ?case by (auto simp: not_quote_def)
  qed
qed

lemma rx_at_link_iff:
  "rx_at hashRegex s = Some (h, r) \<longleftrightarrow>
     is_hash h \<and> (\<exists>q. s = ''href='' @ [dquote] @ q @ ''/tx/'' @ h @ [dquote] @ r \<and> dquote \<notin> set q)"
proof
  assume a: "rx_at hashRegex s = Some (h, r)"
  then obtain s1 s2 where m: "rx_match hashRegex s = Some ([s1, s2], r)" and
    h: "h = take (length s1 - length s2) s1"
    by (auto simp: rx_at_def split: option.splits list.splits)
  have "starts_with s (''href='' @ [dquote])"
  proof (rule ccontr)
    assume "\<not> starts_with s (''href='' @ [dquote])"
    then have "rx_match hashRegex s = None"
      unfolding hashRegex_split by (simp only: rx_match_lits if_False)
    with m show False by simp
  qed
  then obtain s' where s': "s = (''href='' @ [dquote]) @ s'" using starts_with_iff by blast
  with m have "rx_match (Star not_quote # link_tail) s' = Some ([s1, s2], r)"
    unfolding hashRegex_split by (simp only: rx_match_lits_append)
  then obtain q t where qt: "s' = q @ t" "dquote \<notin> set q" "rx_match link_tail t = Some ([s1, s2], r)"
    using star_link_iff by blast
  then obtain h' where h': "is_hash h'" "t = ''/tx/'' @ h' @ dquote # r"
    "[s1, s2] = [h' @ dquote # r, dquote # r]" using link_tail_iff by blast
  from h h'(3) have "h = h'" by simp
  with s' qt h' have "s = ''href='' @ [dquote] @ q @ ''/tx/'' @ h @ [dquote] @ r" by simp
  with \<open>h = h'\<close> h'(1) qt(2)
  show "is_hash h \<and> (\<exists>q. s = ''href='' @ [dquote] @ q @ ''/tx/'' @ h @ [dquote] @ r \<and> dquote \<notin> set q)"
    by blast
next
  assume "is_hash h \<and> (\<exists>q. s = ''href='' @ [dquote] @ q @ ''/tx/'' @ h @ [dquote] @ r \<and> dquote \<notin> set q)"
  then obtain q where ih: "is_hash h" and s0: "s = ''href='' @ [dquote] @ q @ ''/tx/'' @ h @ [dquote] @ r"
    and q: "dquote \<notin> set q" by blast
  from s0 have s: "s = (''href='' @ [dquote]) @ q @ (''/tx/'' @ h @ dquote # r)" by simp
  have "rx_match link_tail (''/tx/'' @ h @ dquote # r) = Some ([h @ dquote # r, dquote # r], r)"
    using ih link_tail_iff by blast
  with q have "rx_match (Star not_quote # link_tail) (q @ (''/tx/'' @ h @ dquote # r))
     = Some ([h @ dquote # r, dquote # r], r)" using star_link_iff by blast
  then have "rx_match hashRegex s = Some ([h @ dquote # r, dquote # r], r)"
    unfolding hashRegex_split s by (simp only: rx_match_lits_append)
  then show "rx_at hashRegex s = Some (h, r)" by (simp add: rx_at_def)
qed


lemma rx_at_Nil: "rx_at hashRegex [] = None"
proof (cases "rx_at hashRegex []")
  case None
  then show ?thesis .
next
  case (Some x)
  obtain h r where "x = (h, r)" by (cases x)
  with Some rx_at_link_iff [of "[]" h r] show ?thesis by simp
qed

lemma link_matches_mem:
  "h \<in> set (link_matches s) \<longleftrightarrow> (\<exists>pre t r. s = pre @ t \<and> rx_at hashRegex t = Some (h, r))"
proof (induction s)
  case Nil
  then show ?case by (simp add: rx_at_Nil)
next
  case (Cons c cs)
  show ?case
  proof
    assume a: "h \<in> set (link_matches (c # cs))"
    show "\<exists>pre t r. c # cs = pre @ t \<and> rx_at hashRegex t = Some (h, r)"
    proof (cases "\<exists>r. rx_at hashRegex (c # cs) = Some (h, r)")
      case True
      then show ?thesis by (metis append_Nil)
    next
      case False
      with a have "h \<in> set (link_matches cs)" by (auto split: option.splits)
      with Cons.IH obtain pre t r where "cs = pre @ t" "rx_at hashRegex t = Some (h, r)" by blast
      then have "c # cs = (c # pre) @ t" by simp
      with \<open>rx_at hashRegex t = Some (h, r)\<close> show ?thesis by blast
    qed
  next
    assume "\<exists>pre t r. c # cs = pre @ t \<and> rx_at hashRegex t = Some (h, r)"
    then obtain pre t r where p: "c # cs = pre @ t" "rx_at hashRegex t = Some (h, r)" by blast
    show "h \<in> set (link_matches (c # cs))"
    proof (cases pre)
      case Nil
      with p have "rx_at hashRegex (c # cs) = Some (h, r)" by simp
      then show ?thesis by simp
    next
      case (Cons a pre')
      with p have "cs = pre' @ t" by simp
      with p(2) Cons.IH have "h \<in> set (link_matches cs)" by blast
      then show ?thesis by (auto split: option.splits)
    qed
  qed
qed

lemma link_matches_occurs: "h \<in> set (link_matches s) \<longleftrightarrow> tx_link_occurs s h"
  unfolding link_matches_mem rx_at_link_iff tx_link_occurs_def by blast


lemma is_hash_last_hex:
  assumes "is_hash h"
  shows "h \<noteq> [] \<and> is_hex (last h)"
proof -
  from assms obtain ds where h: "h = ''0x'' @ ds" and l: "length ds = 64" and x: "list_all is_hex ds"
    using is_hash_iff by blast
  from l have "ds \<noteq> []" by auto
  then have "last h = last ds" "last ds \<in> set ds" unfolding h by simp_all
  with x h show ?thesis by (auto simp: list_all_iff)
qed

lemma no_overlap:
  assumes m1: "rx_at hashRegex t = Some (h, r)" and m2: "rx_at hashRegex t2 = Some (h2, r2)"
    and t: "t = w @ t2" and w: "w \<noteq> []"
  shows "\<exists>w'. r = w' @ t2"
proof -
  from m1 obtain q where h: "is_hash h" and
    t1: "t = ''href='' @ [dquote] @ q @ ''/tx/'' @ h @ [dquote] @ r" and q: "dquote \<notin> set q"
    using rx_at_link_iff by blast
  from m2 obtain q2 where
    t2: "t2 = ''href='' @ [dquote] @ q2 @ ''/tx/'' @ h2 @ [dquote] @ r2"
    using rx_at_link_iff by blast
  define U where "U = q @ ''/tx/'' @ h"
  define X where "X = U @ dquote # r"
  define Y where "Y = q2 @ ''/tx/'' @ h2 @ [dquote] @ r2"
  define H where "H = ''href=''"
  have tX: "t = H @ dquote # X" using t1 by (simp add: X_def U_def H_def)
  have t2Y: "t2 = H @ dquote # Y" using t2 by (simp add: Y_def H_def)
  have nh: "dquote \<notin> set H" by (simp add: dquote_def H_def)
  have nU: "dquote \<notin> set U" using q is_hash_no_quote [OF h] by (simp add: U_def dquote_def)
  have wt: "H @ dquote # X = w @ t2" using tX t by (rule subst)
  have "dquote \<in> set w"
  proof (rule ccontr)
    assume "dquote \<notin> set w"
    with nh have n: "dquote \<notin> set (w @ H)" by simp
    have e: "H @ dquote # X = (w @ H) @ dquote # Y" using wt unfolding t2Y by simp
    from first_split [OF nh n e] have "length H = length (w @ H)" by simp
    with w show False by simp
  qed
  then obtain w1 w2 where w12: "w = w1 @ dquote # w2" "dquote \<notin> set w1"
    by (meson split_list_first)
  have e1: "H @ dquote # X = w1 @ dquote # (w2 @ t2)" using wt unfolding w12(1) by simp
  from first_split [OF nh w12(2) e1] have X2: "X = w2 @ t2" by simp
  have "dquote \<in> set w2"
  proof (rule ccontr)
    assume "dquote \<notin> set w2"
    with nh have n: "dquote \<notin> set (w2 @ H)" by simp
    have e: "U @ dquote # r = (w2 @ H) @ dquote # Y" using X2 unfolding t2Y X_def by simp
    from first_split [OF nU n e] have "U = w2 @ H" by simp
    then have "last U = CHR ''=''" by (simp add: H_def)
    moreover have "last U = last h" using is_hash_last_hex [OF h] by (simp add: U_def)
    ultimately have "is_hex (CHR ''='')" using is_hash_last_hex [OF h] by simp
    then show False by (simp add: is_hex_def)
  qed
  then obtain w3 w4 where w34: "w2 = w3 @ dquote # w4" "dquote \<notin> set w3"
    by (meson split_list_first)
  have e3: "U @ dquote # r = w3 @ dquote # (w4 @ t2)" using X2 unfolding w34(1) X_def by simp
  from first_split [OF nU w34(2) e3] have "r = w4 @ t2" by simp
  then show ?thesis by blast
qed

lemma link_matches_skip:
  "(\<And>u v. w = u @ v \<Longrightarrow> v \<noteq> [] \<Longrightarrow> rx_at hashRegex (v @ r) = None) \<Longrightarrow>
     link_matches (w @ r) = link_matches r"
proof (induction w)
  case Nil
  then show ?case by simp
next
  case (Cons c w)
  have "rx_at hashRegex ((c # w) @ r) = None" using Cons.prems [of "[]" "c # w"] by simp
  moreover have "link_matches (w @ r) = link_matches r"
  proof (rule Cons.IH)
    fix u v assume "w = u @ v" "v \<noteq> []"
    then show "rx_at hashRegex (v @ r) = None" using Cons.prems [of "c # u" v] by simp
  qed
  ultimately show ?case by simp
qed

lemma rx_at_consumes:
  assumes "rx_at hashRegex t = Some (h, r)"
  shows "\<exists>c m. t = c # m @ r"
proof -
  from assms obtain q where "t = ''href='' @ [dquote] @ q @ ''/tx/'' @ h @ [dquote] @ r"
    using rx_at_link_iff by blast
  then have "t = CHR ''h'' # (''ref='' @ [dquote] @ q @ ''/tx/'' @ h @ [dquote]) @ r" by simp
  then show ?thesis by blast
qed

lemma match_step:
  assumes "rx_at hashRegex (c # cs) = Some (h, r)"
  shows "link_matches cs = link_matches r"
proof -
  from rx_at_consumes [OF assms] obtain m where cs: "cs = m @ r" by auto
  have "link_matches (m @ r) = link_matches r"
  proof (rule link_matches_skip)
    fix u v assume uv: "m = u @ v" "v \<noteq> []"
    show "rx_at hashRegex (v @ r) = None"
    proof (cases "rx_at hashRegex (v @ r)")
      case None
      then show ?thesis .
    next
      case (Some x)
      obtain h2 r2 where "x = (h2, r2)" by (cases x)
      with Some have m2: "rx_at hashRegex (v @ r) = Some (h2, r2)" by simp
      have "c # cs = (c # u) @ (v @ r)" using cs uv by simp
      from no_overlap [OF assms m2 this] obtain w' where "r = w' @ v @ r" by auto
      then have "length r = length w' + length v + length r" by (metis length_append add.assoc)
      with uv(2) show ?thesis by simp
    qed
  qed
  with cs show ?thesis by simp
qed

lemma regex_exec_step:
  "regex_exec s = Some (h, r) \<Longrightarrow> link_matches s = h # link_matches r"
  "regex_exec s = None \<Longrightarrow> link_matches s = []"
proof (induction s)
  case Nil
  { case 1 then show ?case by (simp add: regex_exec_def rx_at_Nil) }
  { case 2 then show ?case by simp }
next
  case (Cons c cs)
  { case 1
    show ?case
    proof (cases "rx_at hashRegex (c # cs)")
      case None
      with 1 have "regex_exec cs = Some (h, r)" by (simp add: regex_exec_def)
      with Cons.IH(1) None show ?thesis by simp
    next
      case (Some x)
      with 1 have m: "rx_at hashRegex (c # cs) = Some (h, r)" by (simp add: regex_exec_def)
      from match_step [OF m] m show ?thesis by simp
    qed }
  { case 2
    then have "rx_at hashRegex (c # cs) = None" "regex_exec cs = None"
      by (auto simp: regex_exec_def split: option.splits)
    with Cons.IH(2) show ?case by simp }
qed

lemma fold_set_add_set: "set (fold set_add xs acc) = set xs \<union> set acc"
  by (induction xs arbitrary: acc) (auto simp: set_add_def)

lemma fold_set_add_distinct: "distinct acc \<Longrightarrow> distinct (fold set_add xs acc)"
  by (induction xs arbitrary: acc) (auto simp: set_add_def)

lemma scan_loop_matches:
  "m \<le> 10000 \<Longrightarrow>
   scan_loop s acc m = fold set_add (take (10001 - m) (link_matches s)) acc"
proof (induction s acc m rule: scan_loop.induct)
  case (1 rest hashSet matchCount)
  show ?case
  proof (cases "regex_exec rest")
    case None
    with regex_exec_step(2) [OF None] show ?thesis by (simp add: scan_loop.simps [of rest])
  next
    case (Some x)
    obtain h r where x: "x = (h, r)" by (cases x)
    with Some have e: "regex_exec rest = Some (h, r)" by simp
    have lm: "link_matches rest = h # link_matches r" by (rule regex_exec_step(1) [OF e])
    have tk: "take (10001 - matchCount) (h # link_matches r) =
          h # take (10000 - matchCount) (link_matches r)"
      using "1.prems" by (simp add: take_Cons')
    show ?thesis
    proof (cases "matchCount + 1 > 10000")
      case True
      with "1.prems" have "matchCount = 10000" by simp
      with e lm True show ?thesis by (simp add: scan_loop.simps [of rest])
    next
      case False
      then have le: "matchCount + 1 \<le> 10000" by simp
      from "1.IH" [OF e refl False le]
      have "scan_loop r (set_add h hashSet) (matchCount + 1) =
            fold set_add (take (10001 - (matchCount + 1)) (link_matches r)) (set_add h hashSet)" .
      with e lm tk False show ?thesis by (simp add: scan_loop.simps [of rest])
    qed
  qed
qed

lemma parse_matches:
  "parseHTMLForHashes c page = fold set_add (take 10001 (link_matches c)) []"
  by (simp add: parseHTMLForHashes_def scan_loop_matches)


lemma rx_at_not_h: "c \<noteq> CHR ''h'' \<Longrightarrow> rx_at hashRegex (c # cs) = None"
proof (cases "rx_at hashRegex (c # cs)")
  case None
  then show ?thesis by simp
next
  case (Some x)
  assume c: "c \<noteq> CHR ''h''"
  obtain h r where "x = (h, r)" by (cases x)
  with Some rx_at_consumes [of "c # cs" h r] rx_at_link_iff [of "c # cs" h r] c
  show ?thesis by auto
qed

lemma link_matches_no_h:
  "CHR ''h'' \<notin> set w \<Longrightarrow> link_matches (w @ r) = link_matches r"
proof (induction w)
  case Nil
  then show ?case by simp
next
  case (Cons c w)
  then have "c \<noteq> CHR ''h''" by auto
  from rx_at_not_h [OF this] Cons show ?case by simp
qed

lemma link_matches_tx_link:
  assumes "is_hash h"
  shows "link_matches (tx_link h @ rest) = h # link_matches rest"
proof -
  define core where "core = ''href='' @ [dquote] @ ''/tx/'' @ h @ [dquote]"
  have m: "rx_at hashRegex (core @ ''>tx</a>'' @ rest) = Some (h, ''>tx</a>'' @ rest)"
    unfolding rx_at_link_iff core_def using assms
    by (intro conjI exI [of _ "[]"]) (simp_all add: dquote_def)
  obtain c cs where c: "core @ ''>tx</a>'' @ rest = c # cs" by (cases "core @ ''>tx</a>'' @ rest") (auto simp: core_def)
  from m match_step [of c cs h "''>tx</a>'' @ rest"] c
  have "link_matches (core @ ''>tx</a>'' @ rest) = h # link_matches (''>tx</a>'' @ rest)"
    by simp
  also have "link_matches (''>tx</a>'' @ rest) = link_matches rest"
    by (rule link_matches_no_h) simp
  finally have "link_matches (''<a '' @ core @ ''>tx</a>'' @ rest) = h # link_matches rest"
    using link_matches_no_h [of "''<a ''" "core @ ''>tx</a>'' @ rest"] by simp
  then show ?thesis by (simp add: tx_link_def core_def)
qed

lemma link_matches_repeat:
  assumes "is_hash h"
  shows "link_matches (concat (replicate n (tx_link h)) @ rest) = replicate n h @ link_matches rest"
  by (induction n) (simp_all add: link_matches_tx_link [OF assms])

lemma is_hash_a: "is_hash hash_a"
  by (simp add: is_hash_def hash_a_def is_hex_def list_all_iff)

lemma is_hash_b: "is_hash hash_b"
  by (simp add: is_hash_def hash_b_def is_hex_def list_all_iff)

lemma hash_a_b: "hash_a \<noteq> hash_b"
  by (simp add: hash_a_def hash_b_def)

lemma fold_set_add_replicate:
  "fold set_add (replicate n x) acc = (if n = 0 then acc else set_add x acc)"
  by (induction n arbitrary: acc) (auto simp: set_add_def)

subsection \<open>C9: extraction\<close>

text \<open>
  C9 (as stated): for every content extraction returns all identifiers in link context.
  On the page with 10002 links the loop leaves at the safety check after the match
  number 10001, and the identifier of the last link, which occurs in link context, is
  not returned.
\<close>

theorem C9_cap_drops_identifier:
  "tx_link_occurs overflow_page hash_b \<and> hash_b \<notin> set (parseHTMLForHashes overflow_page 1)"
proof -
  have lm: "link_matches overflow_page = replicate 10001 hash_a @ [hash_b]"
    using link_matches_repeat [OF is_hash_a, of 10001 "tx_link hash_b"]
      link_matches_tx_link [OF is_hash_b, of "[]"]
    by (simp add: overflow_page_def)
  have "tx_link_occurs overflow_page hash_b"
    unfolding link_matches_occurs [symmetric] lm by simp
  moreover have "take 10001 (replicate 10001 hash_a @ [hash_b]) = replicate 10001 hash_a"
    by simp
  then have "parseHTMLForHashes overflow_page 1 = fold set_add (replicate 10001 hash_a) []"
    unfolding parse_matches lm by (rule arg_cong)
  then have "parseHTMLForHashes overflow_page 1 = [hash_a]"
    by (simp only: fold_set_add_replicate) (simp add: set_add_def)
  ultimately show ?thesis using hash_a_b by simp
qed

text \<open>
  C9 (amended): extraction returns a duplicate-free list whose elements are exactly the
  identifiers of the first 10001 link occurrences of the content; all of them occur in
  transaction-link context, and for a content with at most 10001 link occurrences they
  are all the identifiers that do; a content made of two links to one identifier and one
  link to a second identifier yields exactly the two, the first once.
\<close>

theorem C9_extraction:
  "distinct (parseHTMLForHashes c page) \<and>
   set (parseHTMLForHashes c page) = set (take 10001 (link_matches c)) \<and>
   set (parseHTMLForHashes c page) \<subseteq> {h. tx_link_occurs c h} \<and>
   (length (link_matches c) \<le> 10001 \<longrightarrow>
      set (parseHTMLForHashes c page) = {h. tx_link_occurs c h}) \<and>
   (is_hash a \<and> is_hash b \<and> a \<noteq> b \<longrightarrow>
      parseHTMLForHashes (tx_link a @ tx_link a @ tx_link b) page' = [a, b])"
proof (intro conjI impI)
  show "distinct (parseHTMLForHashes c page)"
    unfolding parse_matches by (rule fold_set_add_distinct) simp
  show "set (parseHTMLForHashes c page) = set (take 10001 (link_matches c))"
    unfolding parse_matches fold_set_add_set by simp
  show "set (parseHTMLForHashes c page) \<subseteq> {h. tx_link_occurs c h}"
    unfolding parse_matches fold_set_add_set link_matches_occurs [symmetric]
    by (auto dest: in_set_takeD)
next
  assume "length (link_matches c) \<le> 10001"
  then show "set (parseHTMLForHashes c page) = {h. tx_link_occurs c h}"
    unfolding parse_matches fold_set_add_set link_matches_occurs [symmetric] by simp
next
  assume "is_hash a \<and> is_hash b \<and> a \<noteq> b"
  then have "link_matches (tx_link a @ tx_link a @ tx_link b) = [a, a, b]" "a \<noteq> b"
    using link_matches_tx_link [of a "tx_link a @ tx_link b"]
      link_matches_tx_link [of a "tx_link b"] link_matches_tx_link [of b "[]"]
    by simp_all
  then show "parseHTMLForHashes (tx_link a @ tx_link a @ tx_link b) page' = [a, b]"
    unfolding parse_matches by (simp add: set_add_def)
qed

theorem C9_extraction_witness:
  "is_hash hash_a \<and> is_hash hash_b \<and> hash_a \<noteq> hash_b \<and>
   length (link_matches scenario_a) \<le> 10001 \<and>
   parseHTMLForHashes scenario_a 1 = [hash_a, hash_b] \<and>
   set (parseHTMLForHashes scenario_a 1) = {h. tx_link_occurs scenario_a h}"
proof -
  have "link_matches scenario_a = [hash_a, hash_a, hash_b]"
    using link_matches_tx_link [OF is_hash_a, of "tx_link hash_a @ tx_link hash_b"]
      link_matches_tx_link [OF is_hash_a, of "tx_link hash_b"]
      link_matches_tx_link [OF is_hash_b, of "[]"]
    by (simp add: scenario_a_def)
  then have l: "length (link_matches scenario_a) \<le> 10001" by simp
  note T = C9_extraction [of scenario_a 1 hash_a hash_b 1]
  from T l have s: "set (parseHTMLForHashes scenario_a 1) = {h. tx_link_occurs scenario_a h}"
    by blast
  from T is_hash_a is_hash_b hash_a_b
  have "parseHTMLForHashes (tx_link hash_a @ tx_link hash_a @ tx_link hash_b) 1 = [hash_a, hash_b]"
    by blast
  then have p: "parseHTMLForHashes scenario_a 1 = [hash_a, hash_b]"
    by (simp only: scenario_a_def)
  from is_hash_a is_hash_b hash_a_b l p s show ?thesis by blast
qed

subsection \<open>Lemmas on the example pages\<close>

lemma starts_with_subset: "starts_with s pat \<Longrightarrow> set pat \<subseteq> set s"
  by (induction s pat rule: starts_with.induct) auto

lemma str_includes_subset: "str_includes s pat \<Longrightarrow> set pat \<subseteq> set s"
proof (induction s pat rule: str_includes.induct)
  case (1 pat)
  then show ?case by simp
next
  case (2 c cs pat)
  then show ?case using starts_with_subset [of "c # cs" pat] by auto
qed

lemma str_includes_head: "starts_with s pat \<Longrightarrow> str_includes s pat"
  by (cases s; cases pat) auto

lemma to_lower_simps:
  "to_lower (CHR '' '') = CHR '' ''"
  by (simp add: to_lower_def)

lemma length_tx_link: "length (tx_link h) = length h + 21"
  by (simp add: tx_link_def)

lemma length_hash_a: "length hash_a = 66"
  by (simp add: hash_a_def)

lemma length_page_one_link: "length page_one_link = 587"
  by (simp add: page_one_link_def length_tx_link length_hash_a)

lemma length_page_500: "length page_500 = 500"
  by (simp add: page_500_def length_tx_link length_hash_a)

lemma lower_link_a:
  "set (toLowerCase (tx_link hash_a)) = set ''<a href=/tx0>'' \<union> {dquote}"
  by (auto simp: toLowerCase_def tx_link_def hash_a_def to_lower_def dquote_def)

lemma detectedFailure_None:
  assumes "\<forall>pattern \<in> set failurePatterns. \<not> set (toLowerCase pattern) \<subseteq> set (toLowerCase c)"
  shows "detectedFailure c = None"
  unfolding detectedFailure_def Let_def find_None_iff using assms str_includes_subset by blast

lemma lower_patterns:
  "map toLowerCase failurePatterns =
     [''access denied'', ''captcha'', ''captcha'', ''blocked'', ''rate limit'',
      ''temporarily unavailable'', ''service unavailable'', ''cloudflare'',
      ''please try again'']"
  by (simp add: failurePatterns_def toLowerCase_def to_lower_def)


lemma lower_patterns_cases:
  "(\<forall>pattern \<in> set failurePatterns. P (toLowerCase pattern)) \<longleftrightarrow>
     P ''access denied'' \<and> P ''captcha'' \<and> P ''blocked'' \<and> P ''rate limit'' \<and>
     P ''temporarily unavailable'' \<and> P ''service unavailable'' \<and> P ''cloudflare'' \<and>
     P ''please try again''"
proof -
  have "(\<forall>pattern \<in> set failurePatterns. P (toLowerCase pattern)) \<longleftrightarrow>
        (\<forall>p \<in> set (map toLowerCase failurePatterns). P p)" by simp
  also have "\<dots> \<longleftrightarrow> P ''access denied'' \<and> P ''captcha'' \<and> P ''blocked'' \<and> P ''rate limit'' \<and>
     P ''temporarily unavailable'' \<and> P ''service unavailable'' \<and> P ''cloudflare'' \<and>
     P ''please try again''"
    unfolding lower_patterns by auto
  finally show ?thesis .
qed

lemma lower_padded_link:
  "set (toLowerCase (tx_link hash_a @ replicate n (CHR '' ''))) \<subseteq>
     set ''<a href=/tx0> '' \<union> {dquote}"
proof -
  have "set (toLowerCase (replicate n (CHR '' ''))) \<subseteq> {CHR '' ''}"
    by (auto simp: toLowerCase_def to_lower_simps)
  then show ?thesis using lower_link_a by (auto simp: toLowerCase_def)
qed

lemma detectedFailure_padded_link:
  "detectedFailure (tx_link hash_a @ replicate n (CHR '' '')) = None"
proof (rule detectedFailure_None)
  let ?S = "set ''<a href=/tx0> '' \<union> {dquote}"
  have "\<forall>pattern \<in> set failurePatterns. \<not> set (toLowerCase pattern) \<subseteq> ?S"
    by (subst lower_patterns_cases [of "\<lambda>p. \<not> set p \<subseteq> ?S"]) (simp add: dquote_def)
  with lower_padded_link [of n]
  show "\<forall>pattern \<in> set failurePatterns.
          \<not> set (toLowerCase pattern) \<subseteq> set (toLowerCase (tx_link hash_a @ replicate n (CHR '' '')))"
    by blast
qed

lemma parse_padded_link:
  "parseHTMLForHashes (tx_link hash_a @ replicate n (CHR '' '')) page = [hash_a]"
proof -
  have "link_matches (replicate n (CHR '' '') @ []) = link_matches []"
    by (rule link_matches_no_h) simp
  then have "link_matches (tx_link hash_a @ replicate n (CHR '' '')) = [hash_a]"
    using link_matches_tx_link [OF is_hash_a, of "replicate n (CHR '' '')"] by simp
  then show ?thesis unfolding parse_matches by (simp add: set_add_def)
qed

lemma page_one_link_facts:
  "length page_one_link = 587" "page_one_link \<noteq> []"
  "detectedFailure page_one_link = None"
  "parseHTMLForHashes page_one_link page = [hash_a]"
  using length_page_one_link
  by (auto simp: page_one_link_def detectedFailure_padded_link parse_padded_link)

lemma page_500_facts:
  "length page_500 = 500" "page_500 \<noteq> []"
  "detectedFailure page_500 = None"
  "parseHTMLForHashes page_500 page = [hash_a]"
  using length_page_500
  by (auto simp: page_500_def detectedFailure_padded_link parse_padded_link)

lemma page_challenge_facts:
  "length page_challenge = 518" "page_challenge \<noteq> []"
  "detectedFailure page_challenge = Some ''captcha''"
proof -
  show "length page_challenge = 518" "page_challenge \<noteq> []"
    by (simp_all add: page_challenge_def)
  have l: "toLowerCase page_challenge = ''captcha cloudflare'' @ replicate 500 (CHR '' '')"
    by (simp add: page_challenge_def toLowerCase_def to_lower_def)
  have "\<not> set ''access denied'' \<subseteq> set (toLowerCase page_challenge)"
    unfolding l by simp
  then have a: "\<not> str_includes (toLowerCase page_challenge) ''access denied''"
    using str_includes_subset by blast
  have "starts_with (toLowerCase page_challenge) ''captcha''" unfolding l by simp
  then have c: "str_includes (toLowerCase page_challenge) ''captcha''"
    by (rule str_includes_head)
  have p: "failurePatterns = ''Access Denied'' # ''captcha'' # drop 2 failurePatterns"
    by (simp add: failurePatterns_def)
  have t: "toLowerCase ''Access Denied'' = ''access denied''" "toLowerCase ''captcha'' = ''captcha''"
    by (simp_all add: toLowerCase_def to_lower_def)
  show "detectedFailure page_challenge = Some ''captcha''"
    unfolding detectedFailure_def Let_def by (subst p) (simp add: t a c del: str_includes.simps)
qed

subsection \<open>Evaluation of the example sessions\<close>

lemma recover_renderer [simp]:
  "renderer env_recover p k = (if k < 2 then LoadThrew ''Page load timeout'' else Rendered (Some page_one_link))"
  "detection env_recover = DetectDom None None" "batchTimeout env_recover p = False"
  by (simp_all add: env_recover_def)

lemma scrapper_fields [simp]:
  "maxWindows (ExternalScrapper w t) = w" "totalPages (ExternalScrapper w t) = t"
  "opts (ExternalScrapper w t) = default_options"
  "maxRetries default_options = 2" "windowCooldown default_options = 300"
  "batchDelay default_options = 100" "autoRetryFailed default_options = True"
  by (simp_all add: ExternalScrapper_def default_options_def)

lemma attempt_loop_step:
  "attempt \<le> maxRetries (opts cfg) \<Longrightarrow>
   attempt_loop env cfg page attempt st =
     (case scrapePage env cfg page st of
        (htmlContent, st1) \<Rightarrow>
          if sufficient htmlContent then (htmlContent, st1)
          else attempt_loop env cfg page (attempt + 1)
                 (if attempt < maxRetries (opts cfg)
                  then log_event (EvSleep AttemptDelay (min (500 * attempt) 2000)) st1
                  else st1))"
  by (subst attempt_loop.simps) simp

lemma attempt_loop_stop:
  "\<not> attempt \<le> maxRetries (opts cfg) \<Longrightarrow> attempt_loop env cfg page attempt st = (None, st)"
  by (subst attempt_loop.simps) simp

lemma wave_loop_stop:
  "\<not> batchStart \<le> N \<Longrightarrow> wave_loop env cfg N batchStart errorCount st = Some (errorCount, st)"
  by (subst wave_loop.simps) simp

lemma wave_loop_step:
  "batchStart \<le> N \<Longrightarrow>
   wave_loop env cfg N batchStart errorCount st =
     (let batchEnd = min (batchStart + maxWindows cfg - 1) N;
          pages = [batchStart ..< batchEnd + 1]
      in case launch_batch env cfg pages st of
           (currentBatch, st1) \<Rightarrow>
             (let batchResults = settle_batch env pages currentBatch;
                  batchErrors = count_rejected batchResults;
                  batchStart' = batchEnd + 1;
                  st2 = (if batchStart' \<le> N then
                           (case wave_wait (opts cfg) batchErrors of
                              Some delay \<Rightarrow> log_event (EvSleep WaveDelay delay) st1
                            | None \<Rightarrow> st1)
                         else st1)
              in wave_loop env cfg N batchStart' (errorCount + batchErrors) st2))"
  by (subst wave_loop.simps) simp

lemmas eval_defs =
  attempt_loop_step attempt_loop_stop wave_loop_step wave_loop_stop Let_def
  processPage_unfold scrapePageSafe_def scrapePage_def windowIndex_def fetch_count_def
  log_event_def new_state_def sufficient_def on_result_def settle_batch_def
  count_rejected_def race_timeout_def wave_wait_def wave_delay_def retryFailedPages_def
  retry_page_def set_add_def set_delete_def clearCloudflareStatus_def

subsection \<open>C1: what \<open>scrappe\<close> returns after a successful Retry Pass\<close>

text \<open>
  C1: the identifiers a page yields in the Retry Pass are in the list \<open>scrappe\<close> returns.
  The code takes \<open>uniqueHashes = Array.from(allHashesSet)\<close> before it starts the Retry
  Pass and returns that array. In the session with one window and one page, where page 1
  fails both inline attempts and is rendered with one transaction link in the Retry Pass,
  the pass adds the identifier to \<open>allHashesSet\<close> and removes page 1 from \<open>failedPages\<close>,
  and \<open>scrappe\<close> returns the empty list.
\<close>

theorem C1_retry_hashes_not_returned:
  "map_option (\<lambda>(hs, st'). (hs, allHashesSet st', failedPages st'))
     (scrappe env_recover (ExternalScrapper 1 1) (new_state True)) =
   Some ([], [hash_a], [])"
proof -
  have d: "detectTotalPages env_recover (ExternalScrapper 1 1) = 1"
    by (simp add: detectTotalPages_def detect_no_marker)
  show ?thesis
    unfolding scrappe_def d
    by (simp add: eval_defs page_one_link_facts)
qed

subsection \<open>C6: block signatures and the bypass state\<close>

lemma str_includes_append: "str_includes (pre @ pat @ post) pat"
proof (induction pre)
  case Nil
  have "starts_with (pat @ post) pat" by (simp add: starts_with_iff)
  then show ?case using str_includes_head by simp
next
  case (Cons c pre)
  then show ?case by simp
qed

lemma challenge_renderer [simp]:
  "renderer env_challenge p k = Rendered (Some page_challenge)" "unlinkFails env_challenge = False"
  by (simp_all add: env_challenge_def)

lemma block_signature_fails:
  assumes "renderer env page (fetch_count page st) = Rendered (Some c)"
    and "detectedFailure c \<noteq> None"
  shows "fst (scrapePage env cfg page st) = None \<and>
         allHashesSet (snd (scrapePage env cfg page st)) = allHashesSet st"
  using assms by (auto simp: scrapePage_def Let_def split: option.splits)

lemma challenge_first_clears:
  assumes "renderer env page (fetch_count page st) = Rendered (Some c)"
    and "500 \<le> length c" and "detectedFailure c = Some ''cloudflare''"
    and "windowIndex cfg page \<noteq> None" and "\<not> unlinkFails env"
  shows "\<not> statusFile (snd (scrapePage env cfg page st))"
  using assms
  by (auto simp: scrapePage_def Let_def clearCloudflareStatus_def log_event_def
      split: option.splits)

text \<open>
  C6: a page whose content holds a block signature fails its attempt and yields no
  identifiers (\<open>block_signature_fails\<close>), and whenever the content holds \<open>cloudflare\<close> the
  status file is removed. The code removes the file only when \<open>cloudflare\<close> is the pattern
  that \<open>find\<close> returns, the first of the list that the content holds
  (\<open>challenge_first_clears\<close>). The page below holds \<open>captcha\<close>, which stands earlier in the
  list, and \<open>cloudflare\<close>: the attempt fails and the status file is still there.
\<close>

theorem C6_challenge_behind_captcha_not_cleared:
  "str_includes (toLowerCase page_challenge) (toLowerCase ''cloudflare'') \<and>
   statusFile (new_state True) \<and>
   fst (scrapePage env_challenge (ExternalScrapper 1 1) 1 (new_state True)) = None \<and>
   statusFile (snd (scrapePage env_challenge (ExternalScrapper 1 1) 1 (new_state True)))"
proof -
  have "toLowerCase page_challenge = ''captcha '' @ ''cloudflare'' @ replicate 500 (CHR '' '')"
    by (simp add: page_challenge_def toLowerCase_def to_lower_def)
  moreover have "toLowerCase ''cloudflare'' = ''cloudflare''"
    by (simp add: toLowerCase_def to_lower_def)
  ultimately have "str_includes (toLowerCase page_challenge) (toLowerCase ''cloudflare'')"
    using str_includes_append [of "''captcha ''" "''cloudflare''" "replicate 500 (CHR '' '')"]
    by (simp only:)
  moreover have "scrapePage env_challenge (ExternalScrapper 1 1) 1 (new_state True) =
      (None, log_event (EvSleep RenderWait 800) (log_event (EvLoad 0 1) (new_state True)))"
    by (simp add: scrapePage_def windowIndex_def Let_def page_challenge_facts)
  ultimately show ?thesis by (simp add: new_state_def log_event_def)
qed

subsection \<open>C10: content of exactly 500 characters\<close>

lemma processPage_all_fail_count:
  assumes "\<forall>k. fetch_count page st \<le> k \<and> k < fetch_count page st + maxRetries (opts cfg)
        \<longrightarrow> attempt_fails (renderer env page k)"
    and "windowIndex cfg page \<noteq> None"
  shows "fetch_count page (snd (processPage env cfg page st)) =
           fetch_count page st + maxRetries (opts cfg)"
proof -
  define st0 where "st0 = log_event (EvSleep WindowCooldown (windowCooldown (opts cfg)))
                (log_event (EvLaunch page) st)"
  have fc: "fetch_count page st0 = fetch_count page st"
    by (simp add: st0_def fetch_count_loads)
  obtain h st1 where sf: "scrapePageSafe env cfg page st0 = (h, st1)" by fastforce
  have "fst (attempt_loop env cfg page 1 st0) = None"
    by (rule attempt_loop_all_fail) (use assms fc in simp)
  with sf have h: "h = None" by (simp add: scrapePageSafe_def)
  from scrapePageSafe_trace [OF sf] h assms(2) obtain evs where
    "trace st1 = trace st0 @ evs" "loads page evs = maxRetries (opts cfg)" by blast
  then have "fetch_count page st1 = fetch_count page st + maxRetries (opts cfg)"
    using fc by (simp add: fetch_count_loads)
  moreover obtain r st' where o: "on_result page h st1 = (r, st')" by fastforce
  moreover from o have "trace st' = trace st1" using on_result_trace by blast
  ultimately show ?thesis using sf
    by (simp add: processPage_unfold st0_def [symmetric] fetch_count_loads)
qed

text \<open>
  C10: content of exactly 500 characters without a block signature passes the check of
  \<open>scrapePage\<close> (\<open>length < 500\<close>) and is returned, and the validation of
  \<open>scrapePageSafe\<close> (\<open>length > 500\<close>) does not accept it; when every attempt of the
  inline budget renders content of exactly 500 characters the page is fetched
  \<open>maxRetries\<close> times, its task settles with zero hashes, the hash set is unchanged and
  the page is in \<open>failedPages\<close>.
\<close>

theorem C10_exactly_500_fails:
  "(renderer env page (fetch_count page st) = Rendered (Some c) \<and> length c = 500 \<and>
    detectedFailure c = None \<and> windowIndex cfg page \<noteq> None \<longrightarrow>
      fst (scrapePage env cfg page st) = Some c \<and> \<not> sufficient (Some c)) \<and>
   ((\<forall>k. fetch_count page st \<le> k \<and> k < fetch_count page st + maxRetries (opts cfg)
          \<longrightarrow> content_of_length 500 (renderer env page k)) \<and> windowIndex cfg page \<noteq> None \<longrightarrow>
      (\<exists>st'. processPage env cfg page st = (Fulfilled (page, 0), st') \<and>
             page \<in> set (failedPages st') \<and> allHashesSet st' = allHashesSet st \<and>
             fetch_count page st' = fetch_count page st + maxRetries (opts cfg)))"
proof (intro conjI impI)
  assume a: "renderer env page (fetch_count page st) = Rendered (Some c) \<and> length c = 500 \<and>
    detectedFailure c = None \<and> windowIndex cfg page \<noteq> None"
  then show "fst (scrapePage env cfg page st) = Some c"
    by (auto simp: scrapePage_def Let_def)
  from a show "\<not> sufficient (Some c)" by (simp add: sufficient_def)
next
  assume a: "(\<forall>k. fetch_count page st \<le> k \<and> k < fetch_count page st + maxRetries (opts cfg)
          \<longrightarrow> content_of_length 500 (renderer env page k)) \<and> windowIndex cfg page \<noteq> None"
  have f: "\<And>out. content_of_length 500 out \<Longrightarrow> attempt_fails out"
  proof -
    fix out assume "content_of_length 500 out"
    then show "attempt_fails out"
      by (cases "(500::nat, out)" rule: content_of_length.cases) auto
  qed
  from a f have af: "\<forall>k. fetch_count page st \<le> k \<and> k < fetch_count page st + maxRetries (opts cfg)
          \<longrightarrow> attempt_fails (renderer env page k)" by blast
  from processPage_all_fail [OF af] obtain st' where
    p: "processPage env cfg page st = (Fulfilled (page, 0), st')" and
    q: "page \<in> set (failedPages st')" "allHashesSet st' = allHashesSet st" by blast
  from processPage_all_fail_count [OF af] a p
  have "fetch_count page st' = fetch_count page st + maxRetries (opts cfg)" by simp
  with p q show "\<exists>st'. processPage env cfg page st = (Fulfilled (page, 0), st') \<and>
             page \<in> set (failedPages st') \<and> allHashesSet st' = allHashesSet st \<and>
             fetch_count page st' = fetch_count page st + maxRetries (opts cfg)" by blast
qed

theorem C10_exactly_500_fails_witness:
  "renderer env_500 1 (fetch_count 1 (new_state True)) = Rendered (Some page_500) \<and>
   length page_500 = 500 \<and> detectedFailure page_500 = None \<and>
   parseHTMLForHashes page_500 1 = [hash_a] \<and>
   windowIndex (ExternalScrapper 1 1) 1 \<noteq> None \<and>
   fst (scrapePage env_500 (ExternalScrapper 1 1) 1 (new_state True)) = Some page_500 \<and>
   \<not> sufficient (Some page_500) \<and>
   (\<exists>st'. processPage env_500 (ExternalScrapper 1 1) 1 (new_state True) = (Fulfilled (1, 0), st') \<and>
          1 \<in> set (failedPages st') \<and> allHashesSet st' = [] \<and> fetch_count 1 st' = 2)"
proof -
  have r: "\<And>p k. renderer env_500 p k = Rendered (Some page_500)" by (simp add: env_500_def)
  have w: "windowIndex (ExternalScrapper 1 1) 1 \<noteq> None" by (simp add: windowIndex_def)
  have n: "\<And>p. fetch_count p (new_state True) = 0" "allHashesSet (new_state True) = []"
    by (simp_all add: fetch_count_def new_state_def)
  note T = C10_exactly_500_fails [of env_500 1 "new_state True" page_500 "ExternalScrapper 1 1"]
  from T r w page_500_facts
  have a: "fst (scrapePage env_500 (ExternalScrapper 1 1) 1 (new_state True)) = Some page_500 \<and>
           \<not> sufficient (Some page_500)" by blast
  have "\<forall>k. fetch_count 1 (new_state True) \<le> k \<and>
            k < fetch_count 1 (new_state True) + maxRetries (opts (ExternalScrapper 1 1))
          \<longrightarrow> content_of_length 500 (renderer env_500 1 k)"
    by (simp add: r page_500_facts)
  with T w have "\<exists>st'. processPage env_500 (ExternalScrapper 1 1) 1 (new_state True) = (Fulfilled (1, 0), st') \<and>
             1 \<in> set (failedPages st') \<and> allHashesSet st' = allHashesSet (new_state True) \<and>
             fetch_count 1 st' = fetch_count 1 (new_state True) + maxRetries (opts (ExternalScrapper 1 1))"
    by blast
  then have b: "\<exists>st'. processPage env_500 (ExternalScrapper 1 1) 1 (new_state True) = (Fulfilled (1, 0), st') \<and>
          1 \<in> set (failedPages st') \<and> allHashesSet st' = [] \<and> fetch_count 1 st' = 2"
    by (simp add: n numeral_2_eq_2)
  from r [of 1 "fetch_count 1 (new_state True)"] page_500_facts(1,3) page_500_facts(4) [of 1] w a b
  show ?thesis by blast
qed

subsection \<open>Lemmas on the pacing of the waves\<close>

lemma wave_events_append [simp]: "wave_events (xs @ ys) = wave_events xs @ wave_events ys"
  by (simp add: wave_events_def)

lemma fetch_event_not_wave: "fetch_event p e \<Longrightarrow> \<not> is_wave_event e"
  by (cases e) auto

lemma wave_events_fetch_events:
  "\<forall>e \<in> set evs. fetch_event p e \<Longrightarrow> wave_events evs = []"
  by (auto simp: wave_events_def filter_empty_conv dest: fetch_event_not_wave)

lemma processPage_wave_events:
  "wave_events (trace (snd (processPage env cfg page st))) = wave_events (trace st) @ [EvLaunch page]"
proof -
  obtain r st' where p: "processPage env cfg page st = (r, st')" by fastforce
  from processPage_trace [OF p] obtain evs where
    t: "trace st' = trace st @ [EvLaunch page, EvSleep WindowCooldown (windowCooldown (opts cfg))] @ evs"
    and f: "\<forall>e \<in> set evs. fetch_event page e" by blast
  from f have "wave_events evs = []" by (rule wave_events_fetch_events)
  with t p show ?thesis by (simp add: wave_events_def)
qed

lemma launch_batch_wave_events:
  "wave_events (trace (snd (launch_batch env cfg pages st))) =
     wave_events (trace st) @ map EvLaunch pages"
proof (induction pages arbitrary: st)
  case Nil
  then show ?case by simp
next
  case (Cons page pages)
  obtain r st1 where p: "processPage env cfg page st = (r, st1)" by fastforce
  obtain rs st2 where l: "launch_batch env cfg pages st1 = (rs, st2)" by fastforce
  from processPage_wave_events [of env cfg page st] p
  have "wave_events (trace st1) = wave_events (trace st) @ [EvLaunch page]" by simp
  moreover from Cons.IH [of st1] l
  have "wave_events (trace st2) = wave_events (trace st1) @ map EvLaunch pages" by simp
  ultimately show ?case using p l by simp
qed

lemma wave_index:
  assumes "0 < w"
  shows "(k * w + 1 \<le> N) = (k < wave_count w N)"
proof -
  have "(k < wave_count w N) = (Suc k \<le> (N + w - 1) div w)"
    by (simp add: wave_count_def Suc_le_eq)
  also have "\<dots> = (Suc k * w \<le> N + w - 1)"
    using assms by (simp add: less_eq_div_iff_mult_less_eq)
  also have "\<dots> = (k * w + 1 \<le> N)" using assms by auto
  finally show ?thesis by simp
qed

lemma wave_wait_pause:
  "batchDelay ops = 100 \<Longrightarrow>
   (case wave_wait ops n of
      Some delay \<Rightarrow> log_event (EvSleep WaveDelay delay) st
    | None \<Rightarrow> st) = st\<lparr>trace := trace st @ wave_pause n\<rparr>"
  by (simp add: wave_wait_def wave_delay_def wave_pause_def log_event_def)

lemma wave_events_pause: "wave_events (wave_pause n) = wave_pause n"
  by (simp add: wave_events_def wave_pause_def)

lemma wave_loop_schedule:
  assumes W: "0 < w"
  shows "\<exists>ec' st'. wave_loop env (ExternalScrapper w t) N (k * w + 1) ec st = Some (ec', st') \<and>
           wave_events (trace st') =
             wave_events (trace st) @ concat (map (wave_block env w N) [k ..< wave_count w N])"
proof (induction "wave_count w N - k" arbitrary: k ec st)
  case 0
  then have "\<not> k < wave_count w N" by simp
  then have "\<not> k * w + 1 \<le> N" using wave_index [OF W] by simp
  then have "wave_loop env (ExternalScrapper w t) N (k * w + 1) ec st = Some (ec, st)"
    by (subst wave_loop.simps) simp
  with 0 show ?case by simp
next
  case (Suc m)
  let ?cfg = "ExternalScrapper w t"
  have mw: "maxWindows ?cfg = w" by (simp add: ExternalScrapper_def)
  from Suc.hyps(2) have k: "k < wave_count w N" by simp
  then have bs: "k * w + 1 \<le> N" using wave_index [OF W] by simp
  define batchEnd where "batchEnd = min (k * w + 1 + maxWindows ?cfg - 1) N"
  define pages where "pages = [k * w + 1 ..< batchEnd + 1]"
  have pg: "pages = wave_pages w N k"
    by (simp add: pages_def wave_pages_def batchEnd_def mw)
  obtain cb st1 where l: "launch_batch env ?cfg pages st = (cb, st1)" by fastforce
  have t1: "wave_events (trace st1) = wave_events (trace st) @ map EvLaunch pages"
    using launch_batch_wave_events [of env ?cfg pages st] l by simp
  define n where "n = count_rejected (settle_batch env pages cb)"
  have n: "n = wave_errors env pages"
    using launch_batch_fulfilled [OF l] count_rejected_settle [of cb pages env]
    by (simp add: n_def wave_errors_def)
  define st2 where "st2 = (if batchEnd + 1 \<le> N then
                              (case wave_wait (opts ?cfg) n of
                                 Some delay \<Rightarrow> log_event (EvSleep WaveDelay delay) st1
                               | None \<Rightarrow> st1)
                            else st1)"
  have unf: "wave_loop env ?cfg N (k * w + 1) ec st =
               wave_loop env ?cfg N (batchEnd + 1) (ec + n) st2"
    using bs l [unfolded pages_def]
    by (subst wave_loop.simps)
      (simp only: Let_def batchEnd_def [symmetric] pages_def [symmetric] n_def st2_def
         if_True prod.case)
  show ?case
  proof (cases "Suc k < wave_count w N")
    case True
    then have nx: "Suc k * w + 1 \<le> N" using wave_index [OF W, of "Suc k" N] by simp
    then have be: "batchEnd + 1 = Suc k * w + 1"
      by (simp add: batchEnd_def mw)
    have bd: "batchDelay (opts ?cfg) = 100"
      by (simp add: ExternalScrapper_def default_options_def)
    have "batchEnd + 1 \<le> N" using nx be by simp
    then have "st2 = (case wave_wait (opts ?cfg) n of
                       Some delay \<Rightarrow> log_event (EvSleep WaveDelay delay) st1
                     | None \<Rightarrow> st1)" by (simp only: st2_def if_True)
    then have s2: "st2 = st1\<lparr>trace := trace st1 @ wave_pause n\<rparr>"
      by (simp only: wave_wait_pause [OF bd])
    have t2: "wave_events (trace st2) =
          wave_events (trace st) @ wave_block env w N k"
      using True by (simp add: s2 t1 wave_events_pause wave_block_def pg n)
    have "m = wave_count w N - Suc k" using Suc.hyps(2) by simp
    from Suc.hyps(1) [OF this, of "ec + n" st2] obtain ec' st' where
      "wave_loop env ?cfg N (Suc k * w + 1) (ec + n) st2 = Some (ec', st')"
      "wave_events (trace st') = wave_events (trace st2) @
          concat (map (wave_block env w N) [Suc k ..< wave_count w N])" by blast
    moreover have "[k ..< wave_count w N] = k # [Suc k ..< wave_count w N]"
      using k by (simp add: upt_conv_Cons)
    ultimately show ?thesis using unf be t2 by simp
  next
    case False
    then have "\<not> Suc k * w + 1 \<le> N" using wave_index [OF W, of "Suc k" N] by simp
    then have be: "batchEnd = N" by (simp add: batchEnd_def mw)
    then have s2: "st2 = st1" by (simp add: st2_def)
    have "wave_loop env ?cfg N (N + 1) (ec + n) st1 = Some (ec + n, st1)"
      by (subst wave_loop.simps) simp
    with unf be s2 have r: "wave_loop env ?cfg N (k * w + 1) ec st = Some (ec + n, st1)" by simp
    from False k have "wave_count w N = Suc k" by simp
    then have "concat (map (wave_block env w N) [k ..< wave_count w N]) = map EvLaunch pages"
      by (simp add: wave_block_def pg)
    with r t1 show ?thesis by simp
  qed
qed

lemma wave_errors_counted:
  "count_rejected (settle_batch env pages (fst (launch_batch env cfg pages st))) =
     wave_errors env pages"
proof -
  obtain ps st' where l: "launch_batch env cfg pages st = (ps, st')" by fastforce
  from launch_batch_fulfilled [OF l] count_rejected_settle [of ps pages env] l
  show ?thesis by (simp add: wave_errors_def)
qed

subsection \<open>C4: the adaptive delay between waves\<close>

text \<open>
  C4 (as stated): the delay inserted before the next wave is 2000 ms for more than 5
  errors, 800 ms for 3 to 5 errors and the base delay of 100 ms for 2 errors or fewer.
  With two windows, three pages and a renderer that never answers, the first wave settles
  with 2 errors and a second wave follows: the variable \<open>delay\<close> is 100, the guard
  \<open>delay > batchDelay\<close> fails and page 3 is launched with no wait in between.
\<close>

theorem C4_no_wait_at_base_delay:
  "wave_delay (opts (ExternalScrapper 2 500)) 2 = 100 \<and>
   wave_wait (opts (ExternalScrapper 2 500)) 2 = None \<and>
   count_rejected (settle_batch env_stalled [1, 2]
      (fst (launch_batch env_stalled (ExternalScrapper 2 500) [1, 2] (new_state True)))) = 2 \<and>
   (\<exists>ec st'. wave_loop env_stalled (ExternalScrapper 2 500) 3 1 0 (new_state True) = Some (ec, st') \<and>
      wave_events (trace st') = [EvLaunch 1, EvLaunch 2, EvLaunch 3])"
proof -
  have d: "wave_delay (opts (ExternalScrapper 2 500)) 2 = 100"
    "wave_wait (opts (ExternalScrapper 2 500)) 2 = None"
    by (simp_all add: wave_wait_def wave_delay_def ExternalScrapper_def default_options_def)
  have e: "wave_errors env_stalled [1, 2] = 2" by (simp add: wave_errors_def env_stalled_def)
  have s: "concat (map (wave_block env_stalled 2 3) [0 ..< wave_count 2 3]) =
             [EvLaunch 1, EvLaunch 2, EvLaunch 3]" by code_simp
  have n: "wave_events (trace (new_state True)) = []" by (simp add: new_state_def wave_events_def)
  from wave_loop_schedule [of 2 env_stalled 500 3 0 0 "new_state True"]
  have "\<exists>ec st'. wave_loop env_stalled (ExternalScrapper 2 500) 3 1 0 (new_state True) = Some (ec, st') \<and>
      wave_events (trace st') = [EvLaunch 1, EvLaunch 2, EvLaunch 3]"
    by (simp only: s n append_Nil mult_0 add_0 zero_less_numeral simp_thms)
  with d e show ?thesis by (simp only: wave_errors_counted simp_thms)
qed

text \<open>
  C4 (amended): the variable \<open>delay\<close> follows the three-tier table (2000 for more than 5
  errors, 800 for 3 to 5, the base delay 100 otherwise, with 5 in the 800 branch and 6 in
  the 2000 branch) and a wait of that length is started only in the first two tiers. The
  error count of a wave is the number of its tasks whose timer fired, and with at least
  one window the wave loop ends with the launches and the waits between waves in the
  order of \<open>wave_schedule\<close>: after the launches of each wave that is followed by another
  wave, and before the launches of that next wave, the wait for the error count of the
  wave just settled, which is none for 2 errors or fewer; nothing after the last wave.
\<close>

theorem C4_wave_delay_table:
  assumes "0 < w"
  shows "wave_delay (opts (ExternalScrapper w t)) n =
           (if 5 < n then 2000 else if 2 < n then 800 else 100) \<and>
         wave_wait (opts (ExternalScrapper w t)) n =
           (if 5 < n then Some 2000 else if 2 < n then Some 800 else None) \<and>
         wave_wait (opts (ExternalScrapper w t)) 5 = Some 800 \<and>
         wave_wait (opts (ExternalScrapper w t)) 6 = Some 2000 \<and>
         count_rejected (settle_batch env pages
            (fst (launch_batch env (ExternalScrapper w t) pages s))) = wave_errors env pages \<and>
         (\<exists>ec' st'. wave_loop env (ExternalScrapper w t) N 1 ec st = Some (ec', st') \<and>
            wave_events (trace st') = wave_events (trace st) @ wave_schedule env w N)"
proof -
  have "wave_delay (opts (ExternalScrapper w t)) n =
           (if 5 < n then 2000 else if 2 < n then 800 else 100)"
    by (simp add: wave_delay_def ExternalScrapper_def default_options_def)
  moreover have "wave_wait (opts (ExternalScrapper w t)) m =
           (if 5 < m then Some 2000 else if 2 < m then Some 800 else None)" for m
    by (simp add: wave_wait_def wave_delay_def ExternalScrapper_def default_options_def)
  moreover from this have "wave_wait (opts (ExternalScrapper w t)) 5 = Some 800"
    "wave_wait (opts (ExternalScrapper w t)) 6 = Some 2000" by simp_all
  moreover have "count_rejected (settle_batch env pages
            (fst (launch_batch env (ExternalScrapper w t) pages s))) = wave_errors env pages"
    by (rule wave_errors_counted)
  moreover from wave_loop_schedule [OF assms, of env t N 0 ec st]
  have "\<exists>ec' st'. wave_loop env (ExternalScrapper w t) N 1 ec st = Some (ec', st') \<and>
            wave_events (trace st') = wave_events (trace st) @ wave_schedule env w N"
    by (simp add: wave_schedule_def)
  ultimately show ?thesis by blast
qed

theorem C4_wave_delay_table_witness:
  "0 < (3::nat) \<and>
   wave_errors env_stalled [1, 2, 3] = 3 \<and>
   (\<exists>ec' st'. wave_loop env_stalled (ExternalScrapper 3 500) 8 1 0 (new_state True) = Some (ec', st') \<and>
      wave_events (trace st') =
        [EvLaunch 1, EvLaunch 2, EvLaunch 3, EvSleep WaveDelay 800,
         EvLaunch 4, EvLaunch 5, EvLaunch 6, EvSleep WaveDelay 800,
         EvLaunch 7, EvLaunch 8])"
proof -
  have w: "0 < (3::nat)" by simp
  have e: "wave_errors env_stalled [1, 2, 3] = 3" by (simp add: wave_errors_def env_stalled_def)
  have s: "wave_schedule env_stalled 3 8 =
        [EvLaunch 1, EvLaunch 2, EvLaunch 3, EvSleep WaveDelay 800,
         EvLaunch 4, EvLaunch 5, EvLaunch 6, EvSleep WaveDelay 800,
         EvLaunch 7, EvLaunch 8]" by code_simp
  have n: "wave_events (trace (new_state True)) = []" by (simp add: new_state_def wave_events_def)
  from C4_wave_delay_table [OF w, of 500 0 env_stalled "[]" "new_state True" 8 0 "new_state True"]
  have "\<exists>ec' st'. wave_loop env_stalled (ExternalScrapper 3 500) 8 1 0 (new_state True) = Some (ec', st') \<and>
      wave_events (trace st') = wave_events (trace (new_state True)) @ wave_schedule env_stalled 3 8"
    by (elim conjE)
  then show ?thesis unfolding s n append_Nil using w e by blast
qed

subsection \<open>Lemmas on the worker slots\<close>

lemma slot_inv_init: "slot_inv init_sched"
  by (simp add: slot_inv_def init_sched_def chained_def unchained_first_def active_last_def
      active_none_def started_after_settled_def)

lemma launch_facts:
  "length (tasks (launch W page s)) = Suc (length (tasks s))"
  "i < length (tasks s) \<Longrightarrow> tasks (launch W page s) ! i = tasks s ! i"
  "tasks (launch W page s) ! length (tasks s) =
     \<lparr>t_page = page, t_slot = (page - 1) mod W,
      t_pred = activePromises s ((page - 1) mod W), t_status = Queued\<rparr>"
  "activePromises (launch W page s) sl =
     (if sl = (page - 1) mod W then Some (length (tasks s)) else activePromises s sl)"
  by (simp_all add: launch_def Let_def nth_append)

lemma chained_launch:
  assumes "chained s" "active_last s"
  shows "chained (launch W page s)"
  unfolding chained_def
proof (intro allI impI)
  fix i j
  assume i: "i < length (tasks (launch W page s))"
    and p: "t_pred (tasks (launch W page s) ! i) = Some j"
  show "j < i \<and> t_slot (tasks (launch W page s) ! j) = t_slot (tasks (launch W page s) ! i) \<and>
        (\<forall>k. j < k \<and> k < i \<longrightarrow>
           t_slot (tasks (launch W page s) ! k) \<noteq> t_slot (tasks (launch W page s) ! i))"
  proof (cases "i < length (tasks s)")
    case True
    with p have "t_pred (tasks s ! i) = Some j" by (simp add: launch_facts)
    with assms(1) True have "j < i \<and> t_slot (tasks s ! j) = t_slot (tasks s ! i) \<and>
        (\<forall>k. j < k \<and> k < i \<longrightarrow> t_slot (tasks s ! k) \<noteq> t_slot (tasks s ! i))"
      unfolding chained_def by blast
    with True show ?thesis by (auto simp: launch_facts)
  next
    case False
    with i have e: "i = length (tasks s)" by (simp add: launch_facts)
    with p have "activePromises s ((page - 1) mod W) = Some j" by (simp add: launch_facts)
    with assms(2) have "j < length (tasks s) \<and> t_slot (tasks s ! j) = (page - 1) mod W \<and>
        (\<forall>k. j < k \<and> k < length (tasks s) \<longrightarrow> t_slot (tasks s ! k) \<noteq> (page - 1) mod W)"
      unfolding active_last_def by blast
    with e show ?thesis by (auto simp: launch_facts)
  qed
qed

lemma unchained_first_launch:
  assumes "unchained_first s" "active_none s"
  shows "unchained_first (launch W page s)"
  unfolding unchained_first_def
proof (intro allI impI)
  fix i k
  assume i: "i < length (tasks (launch W page s))"
    and p: "t_pred (tasks (launch W page s) ! i) = None" and k: "k < i"
  show "t_slot (tasks (launch W page s) ! k) \<noteq> t_slot (tasks (launch W page s) ! i)"
  proof (cases "i < length (tasks s)")
    case True
    with p have "t_pred (tasks s ! i) = None" by (simp add: launch_facts)
    with assms(1) True k have "t_slot (tasks s ! k) \<noteq> t_slot (tasks s ! i)"
      unfolding unchained_first_def by blast
    with True k show ?thesis by (simp add: launch_facts)
  next
    case False
    with i have e: "i = length (tasks s)" by (simp add: launch_facts)
    with p have "activePromises s ((page - 1) mod W) = None" by (simp add: launch_facts)
    with assms(2) k e have "t_slot (tasks s ! k) \<noteq> (page - 1) mod W"
      unfolding active_none_def by blast
    with e k show ?thesis by (simp add: launch_facts)
  qed
qed

lemma active_last_launch:
  assumes "active_last s"
  shows "active_last (launch W page s)"
  unfolding active_last_def
proof (intro allI impI)
  fix sl j
  assume a: "activePromises (launch W page s) sl = Some j"
  show "j < length (tasks (launch W page s)) \<and> t_slot (tasks (launch W page s) ! j) = sl \<and>
        (\<forall>k. j < k \<and> k < length (tasks (launch W page s)) \<longrightarrow>
           t_slot (tasks (launch W page s) ! k) \<noteq> sl)"
  proof (cases "sl = (page - 1) mod W")
    case True
    with a have "j = length (tasks s)" by (simp add: launch_facts)
    with True show ?thesis by (simp add: launch_facts)
  next
    case False
    with a have "activePromises s sl = Some j" by (simp add: launch_facts)
    with assms have b: "j < length (tasks s)" "t_slot (tasks s ! j) = sl"
      "\<forall>k. j < k \<and> k < length (tasks s) \<longrightarrow> t_slot (tasks s ! k) \<noteq> sl"
      unfolding active_last_def by blast+
    have "\<forall>k. j < k \<and> k < length (tasks (launch W page s)) \<longrightarrow>
           t_slot (tasks (launch W page s) ! k) \<noteq> sl"
    proof (intro allI impI)
      fix k assume k: "j < k \<and> k < length (tasks (launch W page s))"
      show "t_slot (tasks (launch W page s) ! k) \<noteq> sl"
      proof (cases "k < length (tasks s)")
        case True
        with b(3) k show ?thesis by (simp add: launch_facts)
      next
        case False
        with k have "k = length (tasks s)" by (simp add: launch_facts)
        with \<open>sl \<noteq> (page - 1) mod W\<close> show ?thesis by (simp add: launch_facts)
      qed
    qed
    with b show ?thesis by (simp add: launch_facts)
  qed
qed

lemma active_none_launch:
  assumes "active_none s"
  shows "active_none (launch W page s)"
  unfolding active_none_def
proof (intro allI impI)
  fix sl k
  assume a: "activePromises (launch W page s) sl = None"
    and k: "k < length (tasks (launch W page s))"
  from a have sl: "sl \<noteq> (page - 1) mod W" "activePromises s sl = None"
    by (auto simp: launch_facts split: if_splits)
  show "t_slot (tasks (launch W page s) ! k) \<noteq> sl"
  proof (cases "k < length (tasks s)")
    case True
    with sl assms show ?thesis unfolding active_none_def by (simp add: launch_facts)
  next
    case False
    with k have "k = length (tasks s)" by (simp add: launch_facts)
    with sl show ?thesis by (simp add: launch_facts)
  qed
qed

lemma started_after_settled_launch:
  assumes "started_after_settled s"
  shows "started_after_settled (launch W page s)"
  unfolding started_after_settled_def
proof (intro allI impI)
  fix j i
  assume j: "j < length (tasks (launch W page s))"
    and q: "t_status (tasks (launch W page s) ! j) \<noteq> Queued"
    and i: "i < j" and e: "t_slot (tasks (launch W page s) ! i) = t_slot (tasks (launch W page s) ! j)"
  have jn: "j < length (tasks s)"
  proof (rule ccontr)
    assume "\<not> j < length (tasks s)"
    with j have "j = length (tasks s)" by (simp add: launch_facts)
    with q show False by (simp add: launch_facts)
  qed
  with q i e have "t_status (tasks s ! j) \<noteq> Queued" "t_slot (tasks s ! i) = t_slot (tasks s ! j)"
    by (simp_all add: launch_facts)
  with assms jn i have "t_status (tasks s ! i) = Settled"
    unfolding started_after_settled_def by blast
  with jn i show "t_status (tasks (launch W page s) ! i) = Settled" by (simp add: launch_facts)
qed

lemma slot_inv_launch: "slot_inv s \<Longrightarrow> slot_inv (launch W page s)"
  unfolding slot_inv_def
  using chained_launch unchained_first_launch active_last_launch active_none_launch
    started_after_settled_launch by blast


lemma set_status_nth:
  "tasks (set_status i st s) ! k =
     (if k = i \<and> i < length (tasks s) then (tasks s ! i)\<lparr>t_status := st\<rparr> else tasks s ! k)"
proof (cases "i < length (tasks s)")
  case True
  then show ?thesis by (simp add: set_status_def nth_list_update)
next
  case False
  then show ?thesis by (simp add: set_status_def list_update_beyond)
qed

lemma set_status_facts:
  "length (tasks (set_status i st s)) = length (tasks s)"
  "activePromises (set_status i st s) = activePromises s"
  "t_slot (tasks (set_status i st s) ! k) = t_slot (tasks s ! k)"
  "t_pred (tasks (set_status i st s) ! k) = t_pred (tasks s ! k)"
  "k < length (tasks s) \<Longrightarrow>
     t_status (tasks (set_status i st s) ! k) = (if k = i then st else t_status (tasks s ! k))"
  by (simp_all add: set_status_nth) (simp_all add: set_status_def)

lemma structure_set_status:
  "chained s \<Longrightarrow> chained (set_status i st s)"
  "unchained_first s \<Longrightarrow> unchained_first (set_status i st s)"
  "active_last s \<Longrightarrow> active_last (set_status i st s)"
  "active_none s \<Longrightarrow> active_none (set_status i st s)"
  unfolding chained_def unchained_first_def active_last_def active_none_def
  by (simp_all add: set_status_facts)

lemma earlier_settled_at_start:
  assumes "chained s" "unchained_first s" "started_after_settled s" "can_start i s"
    and "k < i" "t_slot (tasks s ! k) = t_slot (tasks s ! i)"
  shows "t_status (tasks s ! k) = Settled"
proof (cases "t_pred (tasks s ! i)")
  case None
  with assms(2,4,5,6) show ?thesis unfolding unchained_first_def can_start_def by blast
next
  case (Some j)
  from assms(4) have i: "i < length (tasks s)" by (simp add: can_start_def)
  from assms(4) Some have js: "j < length (tasks s)" "t_status (tasks s ! j) = Settled"
    by (simp_all add: can_start_def settled_pred_def)
  from assms(1) i Some have c: "j < i" "t_slot (tasks s ! j) = t_slot (tasks s ! i)"
    "\<forall>k. j < k \<and> k < i \<longrightarrow> t_slot (tasks s ! k) \<noteq> t_slot (tasks s ! i)"
    unfolding chained_def by blast+
  from c(3) assms(5,6) have "k \<le> j" by (meson not_le_imp_less)
  show ?thesis
  proof (cases "k = j")
    case True
    with js show ?thesis by simp
  next
    case False
    with \<open>k \<le> j\<close> have "k < j" by simp
    moreover have "t_slot (tasks s ! k) = t_slot (tasks s ! j)" using assms(6) c(2) by simp
    moreover have "t_status (tasks s ! j) \<noteq> Queued" using js by simp
    ultimately show ?thesis using assms(3) js(1) unfolding started_after_settled_def by blast
  qed
qed

lemma started_after_settled_start:
  assumes "chained s" "unchained_first s" "started_after_settled s" "can_start i s"
  shows "started_after_settled (set_status i InFlight s)"
  unfolding started_after_settled_def
proof (intro allI impI)
  fix j k
  assume j: "j < length (tasks (set_status i InFlight s))"
    and q: "t_status (tasks (set_status i InFlight s) ! j) \<noteq> Queued"
    and k: "k < j"
    and e: "t_slot (tasks (set_status i InFlight s) ! k) = t_slot (tasks (set_status i InFlight s) ! j)"
  from j have jn: "j < length (tasks s)" by (simp add: set_status_facts)
  with k have kn: "k < length (tasks s)" by simp
  from e jn kn have e': "t_slot (tasks s ! k) = t_slot (tasks s ! j)" by (simp add: set_status_facts)
  from assms(4) have qi: "t_status (tasks s ! i) = Queued" by (simp add: can_start_def)
  have old: "t_status (tasks s ! k) = Settled"
  proof (cases "j = i")
    case True
    with assms k e' show ?thesis using earlier_settled_at_start by blast
  next
    case False
    with q jn have "t_status (tasks s ! j) \<noteq> Queued" by (simp add: set_status_facts)
    with assms(3) jn k e' show ?thesis unfolding started_after_settled_def by blast
  qed
  with qi have "k \<noteq> i" by auto
  with old kn show "t_status (tasks (set_status i InFlight s) ! k) = Settled"
    by (simp add: set_status_facts)
qed

lemma started_after_settled_settle:
  assumes "started_after_settled s" "can_settle i s"
  shows "started_after_settled (set_status i Settled s)"
  unfolding started_after_settled_def
proof (intro allI impI)
  fix j k
  assume j: "j < length (tasks (set_status i Settled s))"
    and q: "t_status (tasks (set_status i Settled s) ! j) \<noteq> Queued"
    and k: "k < j"
    and e: "t_slot (tasks (set_status i Settled s) ! k) = t_slot (tasks (set_status i Settled s) ! j)"
  from j have jn: "j < length (tasks s)" by (simp add: set_status_facts)
  with k have kn: "k < length (tasks s)" by simp
  from e jn kn have e': "t_slot (tasks s ! k) = t_slot (tasks s ! j)" by (simp add: set_status_facts)
  from assms(2) have "t_status (tasks s ! i) = InFlight" by (simp add: can_settle_def)
  with q jn have "t_status (tasks s ! j) \<noteq> Queued"
    by (cases "j = i") (simp_all add: set_status_facts)
  with assms(1) jn k e' have "t_status (tasks s ! k) = Settled"
    unfolding started_after_settled_def by blast
  with kn show "t_status (tasks (set_status i Settled s) ! k) = Settled"
    by (simp add: set_status_facts)
qed

lemma wave_reachable_inv: "wave_reachable W s \<Longrightarrow> slot_inv s"
proof (induction rule: wave_reachable.induct)
  case wr_init
  show ?case by (rule slot_inv_init)
next
  case (wr_launch s page)
  then show ?case by (simp add: slot_inv_launch)
next
  case (wr_start s i)
  then show ?case
    unfolding slot_inv_def using structure_set_status started_after_settled_start by blast
next
  case (wr_settle s i)
  then show ?case
    unfolding slot_inv_def using structure_set_status started_after_settled_settle by blast
qed

lemma settled_exclusive:
  assumes "started_after_settled s"
  shows "exclusive s"
  unfolding exclusive_def
proof (intro allI impI)
  fix i j
  assume a: "i < j \<and> j < length (tasks s) \<and> t_slot (tasks s ! i) = t_slot (tasks s ! j) \<and>
        t_status (tasks s ! i) = InFlight"
  show "t_status (tasks s ! j) \<noteq> InFlight"
  proof
    assume "t_status (tasks s ! j) = InFlight"
    then have "t_status (tasks s ! j) \<noteq> Queued" by simp
    with assms a have "t_status (tasks s ! i) = Settled"
      unfolding started_after_settled_def by blast
    with a show False by simp
  qed
qed

lemma wave_phase_exclusive: "wave_reachable W s \<Longrightarrow> exclusive s"
  using wave_reachable_inv slot_inv_def settled_exclusive by blast

lemma two_in_filter:
  "2 \<le> length (filter P xs) \<Longrightarrow> \<exists>i j. i < j \<and> j < length xs \<and> P (xs ! i) \<and> P (xs ! j)"
proof (induction xs)
  case Nil
  then show ?case by simp
next
  case (Cons x xs)
  show ?case
  proof (cases "2 \<le> length (filter P xs)")
    case True
    from Cons.IH [OF this] obtain i j where "i < j" "j < length xs" "P (xs ! i)" "P (xs ! j)"
      by blast
    then have "Suc i < Suc j \<and> Suc j < length (x # xs) \<and> P ((x # xs) ! Suc i) \<and> P ((x # xs) ! Suc j)"
      by simp
    then show ?thesis by blast
  next
    case False
    with Cons.prems have px: "P x" and "1 \<le> length (filter P xs)" by (auto split: if_splits)
    then have "filter P xs \<noteq> []" by auto
    then obtain y where "y \<in> set xs" "P y" by (auto simp: filter_empty_conv)
    then obtain j where "j < length xs" "xs ! j = y" by (meson in_set_conv_nth)
    with px \<open>P y\<close> have "0 < Suc j \<and> Suc j < length (x # xs) \<and> P ((x # xs) ! 0) \<and> P ((x # xs) ! Suc j)"
      by simp
    then show ?thesis by blast
  qed
qed

lemma exclusive_in_flight:
  assumes "exclusive s"
  shows "length (in_flight_on s slot) \<le> 1"
proof (rule ccontr)
  assume "\<not> length (in_flight_on s slot) \<le> 1"
  then have "2 \<le> length (filter (\<lambda>t. t_slot t = slot \<and> t_status t = InFlight) (tasks s))"
    by (simp add: in_flight_on_def)
  from two_in_filter [OF this] obtain i j where ij: "i < j" "j < length (tasks s)"
    and i: "t_slot (tasks s ! i) = slot" "t_status (tasks s ! i) = InFlight"
    and j: "t_slot (tasks s ! j) = slot" "t_status (tasks s ! j) = InFlight" by blast
  have "t_status (tasks s ! j) \<noteq> InFlight"
    using assms [unfolded exclusive_def, rule_format, of i j] ij i j by simp
  with j show False by simp
qed

lemma wave_phase_one_in_flight:
  assumes "wave_reachable W s"
  shows "length (in_flight_on s slot) \<le> 1"
  by (rule exclusive_in_flight [OF wave_phase_exclusive [OF assms]])

lemma run_task_reachable:
  assumes "wave_reachable W s" "can_start i s"
  shows "wave_reachable W (run_task i s)"
proof -
  from assms have r: "wave_reachable W (set_status i InFlight s)" by (rule wr_start)
  from assms(2) have "can_settle i (set_status i InFlight s)"
    by (simp add: can_settle_def can_start_def set_status_facts)
  with r show ?thesis unfolding run_task_def by (rule wr_settle)
qed


lemma after_waves_reachable: "wave_reachable 2 after_waves"
proof -
  define s2 where "s2 = launch 2 2 (launch 2 1 init_sched)"
  define s3 where "s3 = run_task 0 s2"
  define s4 where "s4 = run_task 1 s3"
  define s5 where "s5 = launch 2 3 s4"
  have r2: "wave_reachable 2 s2" unfolding s2_def by (intro wr_launch wr_init)
  have "can_start 0 s2" unfolding s2_def by code_simp
  with r2 have r3: "wave_reachable 2 s3" unfolding s3_def by (rule run_task_reachable)
  have "can_start 1 s3" unfolding s3_def s2_def by code_simp
  with r3 have r4: "wave_reachable 2 s4" unfolding s4_def by (rule run_task_reachable)
  then have r5: "wave_reachable 2 s5" unfolding s5_def by (rule wr_launch)
  have "can_start 2 s5" unfolding s5_def s4_def s3_def s2_def by code_simp
  with r5 have "wave_reachable 2 (run_task 2 s5)" by (rule run_task_reachable)
  then show ?thesis unfolding after_waves_def s5_def s4_def s3_def s2_def .
qed

subsection \<open>C2: the attempts of the Retry Pass\<close>





subsection \<open>C3: one task in flight per worker slot\<close>

text \<open>
  C3: at most one page task is in flight on a worker slot, in the wave phase and in the
  Retry Pass. In the wave phase the chain of \<open>processPage\<close> gives it
  (\<open>wave_phase_one_in_flight\<close>). The Retry Pass starts the tasks of all failed pages at
  once with no chain: after the waves over pages 1 to 3 with two windows
  (\<open>after_waves_reachable\<close>), where no task is in flight, the Retry Pass for the failed
  pages 1 and 3 has both of them in flight on window 0.
\<close>

theorem C3_retry_pass_shares_slot:
  "in_flight_on after_waves 0 = [] \<and>
   in_flight_on (retry_launch 2 [1, 3] after_waves) 0 = [1, 3]"
  by code_simp

end
